theory Spec2Isabelle
  imports Main "HOL-Library.Option_ord"
begin

section \<open>Errors and the tables of the bundle store\<close>

text \<open>
  The exceptions the model of \<^verbatim>\<open>codalab/model/bundle_model.py\<close> can raise.
  \<open>ValueError\<close> is Python's \<^verbatim>\<open>int(value)\<close> on a malformed number, \<open>IndexError\<close> is
  \<^verbatim>\<open>result[0]\<close> on an empty result, \<open>KeyError\<close> a dictionary read of a missing key,
  \<open>AttributeError\<close> a keyword argument that names no column of the table,
  \<open>EngineError\<close> a statement the storage engine rejects, and \<open>DomainError\<close> whatever the
  bundle classes raise when a bundle cannot be constructed or does not validate.
\<close>

datatype error = UsageError | IntegrityError | ValueError | IndexError | KeyError
  | AttributeError | EngineError | DomainError

text \<open>
  One record per table row. Nullable columns are options. Uuids and user ids are strings,
  permission levels and ids are (unbounded) Python and SQL integers.
\<close>

record bundle_row =
  b_id :: int
  b_uuid :: string
  b_bundle_type :: string
  b_command :: "string option"
  b_data_hash :: "string option"
  b_state :: string
  b_owner_id :: "string option"

record bundle_dependency_row =
  d_child_uuid :: string
  d_child_path :: string
  d_parent_uuid :: string
  d_parent_path :: string

record bundle_metadata_row =
  m_bundle_uuid :: string
  m_metadata_key :: string
  m_metadata_value :: string

text \<open>
  A worksheet item as the caller writes it (a dict without \<open>id\<close>) and as the table holds it.
\<close>

record worksheet_item_value =
  iv_worksheet_uuid :: string
  iv_bundle_uuid :: "string option"
  iv_subworksheet_uuid :: "string option"
  iv_value :: "string option"
  iv_type :: string
  iv_sort_key :: "int option"

record worksheet_item_row =
  wi_id :: int
  wi_worksheet_uuid :: string
  wi_bundle_uuid :: "string option"
  wi_subworksheet_uuid :: "string option"
  wi_value :: string
  wi_type :: string
  wi_sort_key :: "int option"

record group_row =
  g_uuid :: string
  g_name :: string
  g_owner_id :: "string option"
  g_user_defined :: bool

record user_group_row =
  ug_group_uuid :: string
  ug_user_id :: string
  ug_is_admin :: bool

record permission_row =
  p_group_uuid :: string
  p_object_uuid :: string
  p_permission :: int

text \<open>
  The database: every table is the list of its rows, in storage order. \<open>wi_next_id\<close> is the
  auto-increment counter of \<open>worksheet_item\<close>.
\<close>

record db =
  cl_bundle :: "bundle_row list"
  cl_bundle_dependency :: "bundle_dependency_row list"
  cl_bundle_metadata :: "bundle_metadata_row list"
  cl_worksheet_item :: "worksheet_item_row list"
  wi_next_id :: int
  cl_group :: "group_row list"
  cl_user_group :: "user_group_row list"
  cl_group_bundle_permission :: "permission_row list"
  cl_group_worksheet_permission :: "permission_row list"

text \<open>
  A bundle as \<open>batch_get_bundles\<close> hands it out and as the callers hold it in memory: the
  row with the dependency rows and the metadata rows of the bundle.
\<close>

record bundle_obj =
  bv_row :: bundle_row
  bv_dependencies :: "bundle_dependency_row list"
  bv_metadata :: "bundle_metadata_row list"

section \<open>What the model is given\<close>

text \<open>
  The attributes of the model object that the file reads and never sets
  (\<open>root_user_id\<close>), the one it sets once (\<open>public_group_uuid\<close>), and the collaborators
  whose code is not part of \<^verbatim>\<open>bundle_model.py\<close>:
  \<^item> \<open>dict_order ks\<close> is the order in which Python iterates over a dictionary whose keys
    were inserted in the order \<open>ks\<close>. The language leaves it open; the theorems that need
    anything of it ask for \<open>dict_order_ok\<close>.
  \<^item> \<open>like_op text pattern\<close>, \<open>to_number\<close> and \<open>to_text\<close> are the storage engine's
    \<^verbatim>\<open>LIKE\<close> and its conversions between text and numbers (collations and coercions
    differ between engines). Numbers are integers: floating point is not modelled.
  \<^item> \<open>bundle_subclass_error\<close> is \<^verbatim>\<open>get_bundle_subclass\<close> applied to a bundle type and
    \<open>validate_error\<close> is \<^verbatim>\<open>bundle.validate()\<close>: the error raised, if any.
  \<^item> \<open>state_running\<close> is \<^verbatim>\<open>State.RUNNING\<close>.
  \<^item> \<open>py_int\<close> is Python's \<^verbatim>\<open>int(value)\<close> on a string: \<open>None\<close> when it raises.
\<close>

record ctx =
  root_user_id :: "string option"
  public_group_uuid :: string
  dict_order :: "string list \<Rightarrow> string list"
  like_op :: "string \<Rightarrow> string \<Rightarrow> bool"
  to_number :: "string \<Rightarrow> int"
  to_text :: "int \<Rightarrow> string"
  bundle_subclass_error :: "string \<Rightarrow> error option"
  validate_error :: "bundle_obj \<Rightarrow> error option"
  state_running :: string
  py_int :: "string \<Rightarrow> int option"

text \<open>A dictionary is iterated key by key: every key inserted, each once.\<close>

definition dict_order_ok :: "ctx \<Rightarrow> bool" where
  "dict_order_ok cx \<longleftrightarrow> (\<forall>ks. set (dict_order cx ks) = set ks \<and> distinct (dict_order cx ks))"

text \<open>
  Modelled from the spec: the permission constants are imported from
  \<^verbatim>\<open>codalab.model.tables\<close>, which is not among the sources. Section 3 of the spec gives the
  ordered scale NONE < READ < ALL, section 6 says the permission columns are integers on
  that scale.
\<close>

definition GROUP_OBJECT_PERMISSION_NONE :: int where
  "GROUP_OBJECT_PERMISSION_NONE = 0"

definition GROUP_OBJECT_PERMISSION_READ :: int where
  "GROUP_OBJECT_PERMISSION_READ = 1"

definition GROUP_OBJECT_PERMISSION_ALL :: int where
  "GROUP_OBJECT_PERMISSION_ALL = 2"

section \<open>A sample context and an empty database\<close>

text \<open>The data the worked examples below are run on.\<close>

definition cx0 :: ctx where
  "cx0 = \<lparr>root_user_id = Some ''root'', public_group_uuid = ''public'', dict_order = remdups,
          like_op = (\<lambda>s p. s = p), to_number = (\<lambda>s. 0), to_text = (\<lambda>n. []),
          bundle_subclass_error = (\<lambda>t. None), validate_error = (\<lambda>b. None),
          state_running = ''running'', py_int = (\<lambda>s. if s = ''5'' then Some 5 else None)\<rparr>"

definition db0 :: db where
  "db0 = \<lparr>cl_bundle = [], cl_bundle_dependency = [], cl_bundle_metadata = [],
          cl_worksheet_item = [], wi_next_id = 1, cl_group = [], cl_user_group = [],
          cl_group_bundle_permission = [], cl_group_worksheet_permission = []\<rparr>"

lemma cx0_dict_order_ok: "dict_order_ok cx0"
  by (simp add: dict_order_ok_def cx0_def)

definition dep :: "string \<Rightarrow> string \<Rightarrow> bundle_dependency_row" where
  "dep child parent = \<lparr>d_child_uuid = child, d_child_path = ''in'', d_parent_uuid = parent, d_parent_path = []\<rparr>"

definition db_chain :: db where
  "db_chain = db0\<lparr>cl_bundle_dependency := [dep ''b'' ''a'', dep ''c'' ''b'', dep ''a'' ''c'']\<rparr>"

section \<open>Clauses and their evaluation by the storage engine\<close>

text \<open>
  The model builds SQLAlchemy expressions and hands them to the engine. An expression is
  kept as a term, built exactly where the source builds it, and evaluated by
  \<open>eval_expr\<close>, the model of the engine.
\<close>

datatype sql_value = VNull | VStr string | VInt int

datatype table = Bundle | Dependency | Metadata | WorksheetItem | Permission | UserGroup

datatype column =
    B_id | B_uuid | B_bundle_type | B_command | B_data_hash | B_state | B_owner_id
  | D_child_uuid | D_child_path | D_parent_uuid | D_parent_path
  | M_bundle_uuid | M_metadata_key | M_metadata_value
  | W_id | W_worksheet_uuid | W_bundle_uuid | W_subworksheet_uuid | W_type | W_sort_key
  | P_group_uuid | P_object_uuid | P_permission
  | U_group_uuid | U_user_id

fun table_of :: "column \<Rightarrow> table" where
  "table_of B_id = Bundle"
| "table_of B_uuid = Bundle"
| "table_of B_bundle_type = Bundle"
| "table_of B_command = Bundle"
| "table_of B_data_hash = Bundle"
| "table_of B_state = Bundle"
| "table_of B_owner_id = Bundle"
| "table_of D_child_uuid = Dependency"
| "table_of D_child_path = Dependency"
| "table_of D_parent_uuid = Dependency"
| "table_of D_parent_path = Dependency"
| "table_of M_bundle_uuid = Metadata"
| "table_of M_metadata_key = Metadata"
| "table_of M_metadata_value = Metadata"
| "table_of W_id = WorksheetItem"
| "table_of W_worksheet_uuid = WorksheetItem"
| "table_of W_bundle_uuid = WorksheetItem"
| "table_of W_subworksheet_uuid = WorksheetItem"
| "table_of W_type = WorksheetItem"
| "table_of W_sort_key = WorksheetItem"
| "table_of P_group_uuid = Permission"
| "table_of P_object_uuid = Permission"
| "table_of P_permission = Permission"
| "table_of U_group_uuid = UserGroup"
| "table_of U_user_id = UserGroup"

text \<open>
  \<open>InSelect c c' ts e\<close> is \<^verbatim>\<open>c.in_(select([c']).where(e))\<close>, the inner select ranging
  over the tables \<open>ts\<close>; a table of the enclosing query that \<open>e\<close> mentions is correlated.
  \<open>EqLit c v\<close> is \<^verbatim>\<open>c == v\<close> for a value that is not \<^verbatim>\<open>None\<close>, \<open>IsNull c\<close> is
  \<^verbatim>\<open>c == None\<close>, \<open>EqCol\<close> compares two columns. \<open>FalseC\<close> is also the Python value
  \<^verbatim>\<open>False\<close> that \<open>make_clause\<close> returns: SQLAlchemy turns it into the constant false
  wherever a clause is expected. \<open>and_of\<close> and \<open>or_of\<close> are \<^verbatim>\<open>and_(*clauses)\<close> and
  \<^verbatim>\<open>or_(*clauses)\<close>.
\<close>

datatype expr =
    TrueC
  | FalseC
  | EqLit column sql_value
  | EqCol column column
  | IsNull column
  | Like column string
  | GeLit column sql_value
  | InList column "sql_value list"
  | InSelect column column "table list" expr
  | AndC expr expr
  | OrC expr expr
  | NotC expr

fun and_of :: "expr list \<Rightarrow> expr" where
  "and_of [] = TrueC"
| "and_of [c] = c"
| "and_of (c # cs) = AndC c (and_of cs)"

fun or_of :: "expr list \<Rightarrow> expr" where
  "or_of [] = FalseC"
| "or_of [c] = c"
| "or_of (c # cs) = OrC c (or_of cs)"

definition col_eq :: "column \<Rightarrow> sql_value \<Rightarrow> expr" where
  "col_eq c v = (if v = VNull then IsNull c else EqLit c v)"

text \<open>One row of every table a query ranges over; a table out of range is unbound.\<close>

record env =
  e_bundle :: "bundle_row option"
  e_dependency :: "bundle_dependency_row option"
  e_metadata :: "bundle_metadata_row option"
  e_item :: "worksheet_item_row option"
  e_permission :: "permission_row option"
  e_user_group :: "user_group_row option"

definition no_rows :: env where
  "no_rows = \<lparr>e_bundle = None, e_dependency = None, e_metadata = None, e_item = None,
              e_permission = None, e_user_group = None\<rparr>"

definition opt_str :: "string option \<Rightarrow> sql_value" where
  "opt_str x = (case x of None \<Rightarrow> VNull | Some s \<Rightarrow> VStr s)"

definition opt_int :: "int option \<Rightarrow> sql_value" where
  "opt_int x = (case x of None \<Rightarrow> VNull | Some n \<Rightarrow> VInt n)"

definition of_row :: "'r option \<Rightarrow> ('r \<Rightarrow> sql_value) \<Rightarrow> sql_value" where
  "of_row r f = (case r of None \<Rightarrow> VNull | Some x \<Rightarrow> f x)"

fun col_value :: "env \<Rightarrow> column \<Rightarrow> sql_value" where
  "col_value e B_id = of_row (e_bundle e) (\<lambda>r. VInt (b_id r))"
| "col_value e B_uuid = of_row (e_bundle e) (\<lambda>r. VStr (b_uuid r))"
| "col_value e B_bundle_type = of_row (e_bundle e) (\<lambda>r. VStr (b_bundle_type r))"
| "col_value e B_command = of_row (e_bundle e) (\<lambda>r. opt_str (b_command r))"
| "col_value e B_data_hash = of_row (e_bundle e) (\<lambda>r. opt_str (b_data_hash r))"
| "col_value e B_state = of_row (e_bundle e) (\<lambda>r. VStr (b_state r))"
| "col_value e B_owner_id = of_row (e_bundle e) (\<lambda>r. opt_str (b_owner_id r))"
| "col_value e D_child_uuid = of_row (e_dependency e) (\<lambda>r. VStr (d_child_uuid r))"
| "col_value e D_child_path = of_row (e_dependency e) (\<lambda>r. VStr (d_child_path r))"
| "col_value e D_parent_uuid = of_row (e_dependency e) (\<lambda>r. VStr (d_parent_uuid r))"
| "col_value e D_parent_path = of_row (e_dependency e) (\<lambda>r. VStr (d_parent_path r))"
| "col_value e M_bundle_uuid = of_row (e_metadata e) (\<lambda>r. VStr (m_bundle_uuid r))"
| "col_value e M_metadata_key = of_row (e_metadata e) (\<lambda>r. VStr (m_metadata_key r))"
| "col_value e M_metadata_value = of_row (e_metadata e) (\<lambda>r. VStr (m_metadata_value r))"
| "col_value e W_id = of_row (e_item e) (\<lambda>r. VInt (wi_id r))"
| "col_value e W_worksheet_uuid = of_row (e_item e) (\<lambda>r. VStr (wi_worksheet_uuid r))"
| "col_value e W_bundle_uuid = of_row (e_item e) (\<lambda>r. opt_str (wi_bundle_uuid r))"
| "col_value e W_subworksheet_uuid = of_row (e_item e) (\<lambda>r. opt_str (wi_subworksheet_uuid r))"
| "col_value e W_type = of_row (e_item e) (\<lambda>r. VStr (wi_type r))"
| "col_value e W_sort_key = of_row (e_item e) (\<lambda>r. opt_int (wi_sort_key r))"
| "col_value e P_group_uuid = of_row (e_permission e) (\<lambda>r. VStr (p_group_uuid r))"
| "col_value e P_object_uuid = of_row (e_permission e) (\<lambda>r. VStr (p_object_uuid r))"
| "col_value e P_permission = of_row (e_permission e) (\<lambda>r. VInt (p_permission r))"
| "col_value e U_group_uuid = of_row (e_user_group e) (\<lambda>r. VStr (ug_group_uuid r))"
| "col_value e U_user_id = of_row (e_user_group e) (\<lambda>r. VStr (ug_user_id r))"

text \<open>
  SQL's three truth values: \<open>None\<close> is unknown. A comparison with \<^verbatim>\<open>NULL\<close> is unknown;
  text is equal to text and a number to a number when they are the same; a number is
  compared with text through the engine's conversion.
\<close>

fun and3 :: "bool option \<Rightarrow> bool option \<Rightarrow> bool option" where
  "and3 (Some False) _ = Some False"
| "and3 _ (Some False) = Some False"
| "and3 (Some True) (Some True) = Some True"
| "and3 _ _ = None"

fun or3 :: "bool option \<Rightarrow> bool option \<Rightarrow> bool option" where
  "or3 (Some True) _ = Some True"
| "or3 _ (Some True) = Some True"
| "or3 (Some False) (Some False) = Some False"
| "or3 _ _ = None"

fun sql_eq :: "ctx \<Rightarrow> sql_value \<Rightarrow> sql_value \<Rightarrow> bool option" where
  "sql_eq cx VNull _ = None"
| "sql_eq cx _ VNull = None"
| "sql_eq cx (VStr a) (VStr b) = Some (a = b)"
| "sql_eq cx (VInt a) (VInt b) = Some (a = b)"
| "sql_eq cx (VInt a) (VStr b) = Some (a = to_number cx b)"
| "sql_eq cx (VStr a) (VInt b) = Some (to_number cx a = b)"

fun number_of :: "ctx \<Rightarrow> sql_value \<Rightarrow> int option" where
  "number_of cx VNull = None"
| "number_of cx (VInt n) = Some n"
| "number_of cx (VStr s) = Some (to_number cx s)"

definition sql_ge :: "ctx \<Rightarrow> sql_value \<Rightarrow> sql_value \<Rightarrow> bool option" where
  "sql_ge cx v w =
     (case (number_of cx v, number_of cx w) of
        (Some a, Some b) \<Rightarrow> Some (a \<ge> b)
      | _ \<Rightarrow> None)"

fun sql_like :: "ctx \<Rightarrow> sql_value \<Rightarrow> string \<Rightarrow> bool option" where
  "sql_like cx VNull p = None"
| "sql_like cx (VStr s) p = Some (like_op cx s p)"
| "sql_like cx (VInt n) p = Some (like_op cx (to_text cx n) p)"

definition sql_in :: "ctx \<Rightarrow> sql_value \<Rightarrow> sql_value list \<Rightarrow> bool option" where
  "sql_in cx v vs =
     (if list_ex (\<lambda>w. sql_eq cx v w = Some True) vs then Some True
      else if list_ex (\<lambda>w. sql_eq cx v w = None) vs then None
      else Some False)"

text \<open>The rows a table contributes to a query: every row of it, bound in the environment.\<close>

fun bind_rows :: "db \<Rightarrow> table \<Rightarrow> env \<Rightarrow> env list" where
  "bind_rows d Bundle e = map (\<lambda>r. e\<lparr>e_bundle := Some r\<rparr>) (cl_bundle d)"
| "bind_rows d Dependency e = map (\<lambda>r. e\<lparr>e_dependency := Some r\<rparr>) (cl_bundle_dependency d)"
| "bind_rows d Metadata e = map (\<lambda>r. e\<lparr>e_metadata := Some r\<rparr>) (cl_bundle_metadata d)"
| "bind_rows d WorksheetItem e = map (\<lambda>r. e\<lparr>e_item := Some r\<rparr>) (cl_worksheet_item d)"
| "bind_rows d Permission e = map (\<lambda>r. e\<lparr>e_permission := Some r\<rparr>) (cl_group_bundle_permission d)"
| "bind_rows d UserGroup e = map (\<lambda>r. e\<lparr>e_user_group := Some r\<rparr>) (cl_user_group d)"

text \<open>The cross product of the tables \<open>ts\<close>, on top of the rows already bound in \<open>e\<close>.\<close>

fun envs :: "db \<Rightarrow> table list \<Rightarrow> env \<Rightarrow> env list" where
  "envs d [] e = [e]"
| "envs d (t # ts) e = concat (map (envs d ts) (bind_rows d t e))"

fun eval_expr :: "ctx \<Rightarrow> db \<Rightarrow> env \<Rightarrow> expr \<Rightarrow> bool option" where
  "eval_expr cx d e TrueC = Some True"
| "eval_expr cx d e FalseC = Some False"
| "eval_expr cx d e (EqLit c v) = sql_eq cx (col_value e c) v"
| "eval_expr cx d e (EqCol c c') = sql_eq cx (col_value e c) (col_value e c')"
| "eval_expr cx d e (IsNull c) = Some (col_value e c = VNull)"
| "eval_expr cx d e (Like c p) = sql_like cx (col_value e c) p"
| "eval_expr cx d e (GeLit c v) = sql_ge cx (col_value e c) v"
| "eval_expr cx d e (InList c vs) = sql_in cx (col_value e c) vs"
| "eval_expr cx d e (InSelect c c' ts x) =
     sql_in cx (col_value e c)
       (map (\<lambda>e'. col_value e' c') (filter (\<lambda>e'. eval_expr cx d e' x = Some True) (envs d ts e)))"
| "eval_expr cx d e (AndC x y) = and3 (eval_expr cx d e x) (eval_expr cx d e y)"
| "eval_expr cx d e (OrC x y) = or3 (eval_expr cx d e x) (eval_expr cx d e y)"
| "eval_expr cx d e (NotC x) = map_option Not (eval_expr cx d e x)"

text \<open>
  The tables a select ranges over: those of the columns its clause mentions outside of
  inner selects, each once.
\<close>

fun tables :: "expr \<Rightarrow> table list" where
  "tables TrueC = []"
| "tables FalseC = []"
| "tables (EqLit c v) = [table_of c]"
| "tables (EqCol c c') = [table_of c, table_of c']"
| "tables (IsNull c) = [table_of c]"
| "tables (Like c p) = [table_of c]"
| "tables (GeLit c v) = [table_of c]"
| "tables (InList c vs) = [table_of c]"
| "tables (InSelect c c' ts x) = [table_of c]"
| "tables (AndC x y) = tables x @ tables y"
| "tables (OrC x y) = tables x @ tables y"
| "tables (NotC x) = tables x"

lemma and3_False_iff: "and3 a b = Some False \<longleftrightarrow> a = Some False \<or> b = Some False"
  by (cases "(a, b)" rule: and3.cases) auto

lemma and3_True_iff: "and3 a b = Some True \<longleftrightarrow> a = Some True \<and> b = Some True"
  by (cases "(a, b)" rule: and3.cases) auto

lemma or3_True_iff: "or3 a b = Some True \<longleftrightarrow> a = Some True \<or> b = Some True"
  by (cases "(a, b)" rule: or3.cases) auto

lemma eval_and_of_False:
  "c \<in> set cs \<Longrightarrow> eval_expr cx d e c = Some False \<Longrightarrow> eval_expr cx d e (and_of cs) = Some False"
  by (induction cs rule: and_of.induct) (auto simp: and3_False_iff)

lemma eval_and_of_True:
  "eval_expr cx d e (and_of cs) = Some True \<longleftrightarrow> (\<forall>c \<in> set cs. eval_expr cx d e c = Some True)"
  by (induction cs rule: and_of.induct) (auto simp: and3_True_iff)

lemma eval_or_of_True:
  "eval_expr cx d e (or_of cs) = Some True \<longleftrightarrow> (\<exists>c \<in> set cs. eval_expr cx d e c = Some True)"
  by (induction cs rule: or_of.induct) (auto simp: or3_True_iff)

section \<open>Clauses from keyword arguments\<close>

text \<open>
  A value of a keyword argument: a list, set or tuple (\<open>KList\<close>), a \<^verbatim>\<open>LikeQuery\<close>
  (\<open>KLike\<close>), or anything else (\<open>KValue\<close>).
\<close>

datatype kwvalue = KList "sql_value list" | KLike string | KValue sql_value

fun make_clause :: "column \<Rightarrow> kwvalue \<Rightarrow> expr" where
  "make_clause key (KList vs) = (if vs = [] then FalseC else InList key vs)"
| "make_clause key (KLike p) = Like key p"
| "make_clause key (KValue v) = col_eq key v"

text \<open>\<^verbatim>\<open>getattr(table.c, key)\<close>: the column of the table with that name, if there is one.\<close>

definition column_names :: "(table \<times> string \<times> column) list" where
  "column_names =
     [(Bundle, ''id'', B_id), (Bundle, ''uuid'', B_uuid), (Bundle, ''bundle_type'', B_bundle_type),
      (Bundle, ''command'', B_command), (Bundle, ''data_hash'', B_data_hash),
      (Bundle, ''state'', B_state), (Bundle, ''owner_id'', B_owner_id),
      (Dependency, ''child_uuid'', D_child_uuid), (Dependency, ''child_path'', D_child_path),
      (Dependency, ''parent_uuid'', D_parent_uuid), (Dependency, ''parent_path'', D_parent_path),
      (Metadata, ''bundle_uuid'', M_bundle_uuid), (Metadata, ''metadata_key'', M_metadata_key),
      (Metadata, ''metadata_value'', M_metadata_value),
      (WorksheetItem, ''id'', W_id), (WorksheetItem, ''worksheet_uuid'', W_worksheet_uuid),
      (WorksheetItem, ''bundle_uuid'', W_bundle_uuid),
      (WorksheetItem, ''subworksheet_uuid'', W_subworksheet_uuid),
      (WorksheetItem, ''type'', W_type), (WorksheetItem, ''sort_key'', W_sort_key),
      (Permission, ''group_uuid'', P_group_uuid), (Permission, ''object_uuid'', P_object_uuid),
      (Permission, ''permission'', P_permission),
      (UserGroup, ''group_uuid'', U_group_uuid), (UserGroup, ''user_id'', U_user_id)]"

definition table_column :: "table \<Rightarrow> string \<Rightarrow> column option" where
  "table_column t key = map_of (map (\<lambda>(t', k, c). ((t', k), c)) column_names) (t, key)"

fun kwargs_clauses :: "table \<Rightarrow> (string \<times> kwvalue) list \<Rightarrow> error + expr list" where
  "kwargs_clauses t [] = Inr []"
| "kwargs_clauses t ((key, v) # kwargs) =
     (case table_column t key of
        None \<Rightarrow> Inl AttributeError
      | Some c \<Rightarrow>
          (case kwargs_clauses t kwargs of
             Inl err \<Rightarrow> Inl err
           | Inr cs \<Rightarrow> Inr (make_clause c v # cs)))"

definition make_kwargs_clause :: "table \<Rightarrow> (string \<times> kwvalue) list \<Rightarrow> error + expr" where
  "make_kwargs_clause t kwargs =
     (case kwargs_clauses t kwargs of
        Inl err \<Rightarrow> Inl err
      | Inr cs \<Rightarrow> Inr (and_of (TrueC # cs)))"

section \<open>Transactions\<close>

text \<open>
  \<^verbatim>\<open>with self.engine.begin() as connection: body\<close> runs the statements of \<open>body\<close> in one
  transaction: it commits when the body returns and rolls back when the body raises. The
  body is a function from the database to an error or a result with the database it has
  written; the outcome pairs what the caller sees with the database left behind.
\<close>

definition engine_begin :: "(db \<Rightarrow> error + ('a \<times> db)) \<Rightarrow> db \<Rightarrow> (error + 'a) \<times> db" where
  "engine_begin body d =
     (case body d of
        Inl e \<Rightarrow> (Inl e, d)
      | Inr (a, d') \<Rightarrow> (Inr a, d'))"

text \<open>
  Modelled from the spec: \<^verbatim>\<open>codalab.common.precondition\<close> is imported by the model and
  is not among the sources. Sections 4.4 and 7 of the spec class a violated precondition
  of the model (more rows deleted than expected) as an integrity error.
\<close>

definition precondition :: "bool \<Rightarrow> error + unit" where
  "precondition condition = (if condition then Inr () else Inl IntegrityError)"

section \<open>Bundles\<close>

text \<open>A loop whose body may raise: the first error ends it.\<close>

fun fold_err :: "('a \<Rightarrow> 's \<Rightarrow> error + 's) \<Rightarrow> 'a list \<Rightarrow> 's \<Rightarrow> error + 's" where
  "fold_err f [] s = Inr s"
| "fold_err f (x # xs) s = (case f x s of Inl err \<Rightarrow> Inl err | Inr s' \<Rightarrow> fold_err f xs s')"

fun first_error :: "('a \<Rightarrow> error option) \<Rightarrow> 'a list \<Rightarrow> error option" where
  "first_error f [] = None"
| "first_error f (x # xs) = (case f x of Some err \<Rightarrow> Some err | None \<Rightarrow> first_error f xs)"

text \<open>\<^verbatim>\<open>cl_bundle.select().where(clause)\<close>: the rows of \<open>bundle\<close> on which the clause is true.\<close>

definition bundle_rows_where :: "ctx \<Rightarrow> db \<Rightarrow> expr \<Rightarrow> bundle_row list" where
  "bundle_rows_where cx d clause =
     filter (\<lambda>r. eval_expr cx d (no_rows\<lparr>e_bundle := Some r\<rparr>) clause = Some True) (cl_bundle d)"

text \<open>
  \<^verbatim>\<open>{row.uuid: dict(row) for row in bundle_rows}\<close> with the two empty lists added: the
  dictionary is an association list in iteration order; a uuid that several rows carry
  keeps the last of them.
\<close>

definition last_with_uuid :: "bundle_row list \<Rightarrow> string \<Rightarrow> bundle_row option" where
  "last_with_uuid rows u =
     (case filter (\<lambda>r. b_uuid r = u) rows of [] \<Rightarrow> None | r # rs \<Rightarrow> Some (last (r # rs)))"

definition bundle_values_of :: "ctx \<Rightarrow> bundle_row list \<Rightarrow> (string \<times> bundle_obj) list" where
  "bundle_values_of cx rows =
     List.map_filter
       (\<lambda>u. map_option (\<lambda>r. (u, \<lparr>bv_row = r, bv_dependencies = [], bv_metadata = []\<rparr>))
                        (last_with_uuid rows u))
       (dict_order cx (map b_uuid rows))"

definition add_dependency ::
  "bundle_dependency_row \<Rightarrow> (string \<times> bundle_obj) list \<Rightarrow> error + (string \<times> bundle_obj) list" where
  "add_dependency dep_row bundle_values =
     (if d_child_uuid dep_row \<notin> fst ` set bundle_values then Inl IntegrityError
      else Inr (map (\<lambda>(u, b). if u = d_child_uuid dep_row
                               then (u, b\<lparr>bv_dependencies := bv_dependencies b @ [dep_row]\<rparr>)
                               else (u, b)) bundle_values))"

definition add_metadata ::
  "bundle_metadata_row \<Rightarrow> (string \<times> bundle_obj) list \<Rightarrow> error + (string \<times> bundle_obj) list" where
  "add_metadata metadata_row bundle_values =
     (if m_bundle_uuid metadata_row \<notin> fst ` set bundle_values then Inl IntegrityError
      else Inr (map (\<lambda>(u, b). if u = m_bundle_uuid metadata_row
                               then (u, b\<lparr>bv_metadata := bv_metadata b @ [metadata_row]\<rparr>)
                               else (u, b)) bundle_values))"

definition batch_get_bundles :: "ctx \<Rightarrow> db \<Rightarrow> (string \<times> kwvalue) list \<Rightarrow> error + bundle_obj list" where
  "batch_get_bundles cx d kwargs =
     (case make_kwargs_clause Bundle kwargs of
        Inl err \<Rightarrow> Inl err
      | Inr clause \<Rightarrow>
          (let bundle_rows = bundle_rows_where cx d clause in
           if bundle_rows = [] then Inr []
           else
             (let uuids = set (map b_uuid bundle_rows);
                  dependency_rows = filter (\<lambda>r. d_child_uuid r \<in> uuids) (cl_bundle_dependency d);
                  metadata_rows = filter (\<lambda>r. m_bundle_uuid r \<in> uuids) (cl_bundle_metadata d)
              in case fold_err add_dependency dependency_rows (bundle_values_of cx bundle_rows) of
                   Inl err \<Rightarrow> Inl err
                 | Inr bvs \<Rightarrow>
                     (case fold_err add_metadata metadata_rows bvs of
                        Inl err \<Rightarrow> Inl err
                      | Inr bundle_values \<Rightarrow>
                          (let sorted_values = sort_key (\<lambda>b. b_id (bv_row b)) (map snd bundle_values)
                           in case first_error (\<lambda>b. bundle_subclass_error cx (b_bundle_type (bv_row b)))
                                       sorted_values of
                                Some err \<Rightarrow> Inl err
                              | None \<Rightarrow>
                                  (case first_error (validate_error cx) sorted_values of
                                     Some err \<Rightarrow> Inl err
                                   | None \<Rightarrow> Inr sorted_values))))))"

definition get_bundle :: "ctx \<Rightarrow> db \<Rightarrow> string \<Rightarrow> error + bundle_obj" where
  "get_bundle cx d uuid =
     (case batch_get_bundles cx d [(''uuid'', KValue (VStr uuid))] of
        Inl err \<Rightarrow> Inl err
      | Inr bundles \<Rightarrow>
          (case bundles of
             [] \<Rightarrow> Inl UsageError
           | b # bs \<Rightarrow> if length bundles > 1 then Inl IntegrityError else Inr b))"

text \<open>
  The dict \<open>update\<close> of \<open>batch_update_bundles\<close>, column by column: \<open>None\<close> when the key is
  absent, the new value otherwise.
\<close>

record bundle_update =
  u_id :: "int option"
  u_uuid :: "string option"
  u_bundle_type :: "string option"
  u_command :: "string option option"
  u_data_hash :: "string option option"
  u_state :: "string option"
  u_owner_id :: "string option option"

definition upd :: "'a option \<Rightarrow> 'a \<Rightarrow> 'a" where
  "upd new old = (case new of None \<Rightarrow> old | Some v \<Rightarrow> v)"

text \<open>The new values of the columns the update names, on one row.\<close>

definition set_columns :: "bundle_update \<Rightarrow> bundle_row \<Rightarrow> bundle_row" where
  "set_columns u r =
     \<lparr>b_id = upd (u_id u) (b_id r), b_uuid = upd (u_uuid u) (b_uuid r),
      b_bundle_type = upd (u_bundle_type u) (b_bundle_type r),
      b_command = upd (u_command u) (b_command r),
      b_data_hash = upd (u_data_hash u) (b_data_hash r),
      b_state = upd (u_state u) (b_state r),
      b_owner_id = upd (u_owner_id u) (b_owner_id r)\<rparr>"

text \<open>The update is not the empty dict.\<close>

definition names_column :: "bundle_update \<Rightarrow> bool" where
  "names_column u \<longleftrightarrow>
     u_id u \<noteq> None \<or> u_uuid u \<noteq> None \<or> u_bundle_type u \<noteq> None \<or> u_command u \<noteq> None \<or>
     u_data_hash u \<noteq> None \<or> u_state u \<noteq> None \<or> u_owner_id u \<noteq> None"

text \<open>
  The statement \<^verbatim>\<open>cl_bundle.update().where(clause).values(update)\<close>. An update that names
  no column has nothing to set and the engine rejects the statement (\<open>update_bundle\<close>
  guards its own with \<^verbatim>\<open>if update:\<close>, \<open>batch_update_bundles\<close> does not). Otherwise the
  rows the clause matches take the new values; the statement reports how many it matched.
\<close>

definition apply_update :: "bundle_update \<Rightarrow> (bundle_row \<Rightarrow> bool) \<Rightarrow> db \<Rightarrow> error + (nat \<times> db)" where
  "apply_update u matched c =
     (if \<not> names_column u then Inl EngineError
      else Inr (length (filter matched (cl_bundle c)),
                c\<lparr>cl_bundle := map (\<lambda>r. if matched r then set_columns u r else r) (cl_bundle c)\<rparr>))"

text \<open>
  Modelled from the spec: \<^verbatim>\<open>update_in_memory\<close> belongs to the bundle classes of
  \<^verbatim>\<open>codalab.objects\<close>, which are not among the sources. Section 3 of the spec has a bundle
  updated in place by a partial update of its columns: the bundle in memory takes the new
  values of the columns the update names.
\<close>

definition update_in_memory :: "bundle_update \<Rightarrow> bundle_obj \<Rightarrow> bundle_obj" where
  "update_in_memory u b = b\<lparr>bv_row := set_columns u (bv_row b)\<rparr>"

text \<open>
  \<open>batch_update_bundles\<close>. \<open>condition\<close> is the optional dict of the source, empty when it
  is \<^verbatim>\<open>None\<close>. The result is what the caller gets, the database left behind and the
  bundles in memory.
\<close>

definition batch_update_clause ::
  "bundle_obj list \<Rightarrow> (string \<times> kwvalue) list \<Rightarrow> error + expr" where
  "batch_update_clause bundles condition =
     (let bundle_ids = remdups (map (\<lambda>b. b_id (bv_row b)) bundles);
          clause = InList B_id (map VInt bundle_ids)
      in if condition \<noteq> [] then
           (case make_kwargs_clause Bundle condition of
              Inl err \<Rightarrow> Inl err
            | Inr c \<Rightarrow> Inr (and_of [clause, c]))
         else Inr clause)"

definition batch_update_body ::
  "ctx \<Rightarrow> bundle_obj list \<Rightarrow> bundle_update \<Rightarrow> expr \<Rightarrow> db \<Rightarrow> error + ((bool \<times> bundle_obj list) \<times> db)" where
  "batch_update_body cx bundles update clause c =
     (case apply_update update
             (\<lambda>r. eval_expr cx c (no_rows\<lparr>e_bundle := Some r\<rparr>) clause = Some True) c of
        Inl err \<Rightarrow> Inl err
      | Inr (rowcount, c') \<Rightarrow>
          (let success = (rowcount = length (remdups (map (\<lambda>b. b_id (bv_row b)) bundles)))
           in Inr ((success, if success then map (update_in_memory update) bundles else bundles), c')))"

definition batch_update_bundles ::
  "ctx \<Rightarrow> db \<Rightarrow> bundle_obj list \<Rightarrow> bundle_update \<Rightarrow> (string \<times> kwvalue) list
     \<Rightarrow> (error + bool) \<times> db \<times> bundle_obj list" where
  "batch_update_bundles cx d bundles update condition =
     (case precondition (u_id update = None \<and> u_uuid update = None) of
        Inl err \<Rightarrow> (Inl err, d, bundles)
      | Inr _ \<Rightarrow>
          if bundles \<noteq> [] then
            (case batch_update_clause bundles condition of
               Inl err \<Rightarrow> (Inl err, d, bundles)
             | Inr clause \<Rightarrow>
                 (case engine_begin (batch_update_body cx bundles update clause) d of
                    (Inl err, d') \<Rightarrow> (Inl err, d', bundles)
                  | (Inr (success, bundles'), d') \<Rightarrow> (Inr success, d', bundles')))
          else (Inr True, d, bundles))"

text \<open>\<open>_check_not_running\<close> and \<open>delete_bundles\<close>.\<close>

definition check_not_running :: "ctx \<Rightarrow> db \<Rightarrow> string list \<Rightarrow> error + unit" where
  "check_not_running cx d uuids =
     (let rows = filter (\<lambda>r. b_uuid r \<in> set uuids) (cl_bundle d);
          running_uuids = map b_uuid (filter (\<lambda>r. b_state r = state_running cx) rows)
      in if length running_uuids > 0 then Inl UsageError else Inr ())"

text \<open>\<^verbatim>\<open>column.in_(uuids)\<close> on a nullable column: never true of \<^verbatim>\<open>NULL\<close>.\<close>

definition in_opt :: "string option \<Rightarrow> string list \<Rightarrow> bool" where
  "in_opt x uuids = (case x of None \<Rightarrow> False | Some u \<Rightarrow> u \<in> set uuids)"

text \<open>The five delete statements of \<open>delete_bundles\<close>, in the order the source executes them.\<close>

definition delete_permissions :: "string list \<Rightarrow> db \<Rightarrow> db" where
  "delete_permissions uuids c =
     c\<lparr>cl_group_bundle_permission :=
         filter (\<lambda>r. p_object_uuid r \<notin> set uuids) (cl_group_bundle_permission c)\<rparr>"

definition delete_items :: "string list \<Rightarrow> db \<Rightarrow> db" where
  "delete_items uuids c =
     c\<lparr>cl_worksheet_item := filter (\<lambda>r. \<not> in_opt (wi_bundle_uuid r) uuids) (cl_worksheet_item c)\<rparr>"

definition delete_metadata :: "string list \<Rightarrow> db \<Rightarrow> db" where
  "delete_metadata uuids c =
     c\<lparr>cl_bundle_metadata := filter (\<lambda>r. m_bundle_uuid r \<notin> set uuids) (cl_bundle_metadata c)\<rparr>"

definition delete_dependencies :: "string list \<Rightarrow> db \<Rightarrow> db" where
  "delete_dependencies uuids c =
     c\<lparr>cl_bundle_dependency :=
         filter (\<lambda>r. d_child_uuid r \<notin> set uuids) (cl_bundle_dependency c)\<rparr>"

definition delete_bundle_rows :: "string list \<Rightarrow> db \<Rightarrow> db" where
  "delete_bundle_rows uuids c =
     c\<lparr>cl_bundle := filter (\<lambda>r. b_uuid r \<notin> set uuids) (cl_bundle c)\<rparr>"

definition delete_statements :: "string list \<Rightarrow> (db \<Rightarrow> db) list" where
  "delete_statements uuids =
     [delete_permissions uuids, delete_items uuids, delete_metadata uuids,
      delete_dependencies uuids, delete_bundle_rows uuids]"

text \<open>The database after the first \<open>n\<close> statements of a transaction.\<close>

definition run_statements :: "(db \<Rightarrow> db) list \<Rightarrow> nat \<Rightarrow> db \<Rightarrow> db" where
  "run_statements stmts n c = fold (\<lambda>stmt c. stmt c) (take n stmts) c"

definition delete_bundles :: "ctx \<Rightarrow> db \<Rightarrow> string list \<Rightarrow> (error + unit) \<times> db" where
  "delete_bundles cx d uuids =
     (case check_not_running cx d uuids of
        Inl err \<Rightarrow> (Inl err, d)
      | Inr _ \<Rightarrow>
          engine_begin
            (\<lambda>c. Inr ((), run_statements (delete_statements uuids) (length (delete_statements uuids)) c))
            d)"

lemma kwargs_clauses_ok:
  "\<forall>kv \<in> set kwargs. table_column t (fst kv) \<noteq> None \<Longrightarrow>
   \<exists>cs. kwargs_clauses t kwargs = Inr cs \<and>
        (\<forall>k v c. (k, v) \<in> set kwargs \<longrightarrow> table_column t k = Some c \<longrightarrow> make_clause c v \<in> set cs)"
proof (induction kwargs)
  case Nil
  then show ?case by simp
next
  case (Cons kv kwargs)
  obtain k v where kv: "kv = (k, v)" by (cases kv)
  from Cons.prems kv obtain c where c: "table_column t k = Some c" by auto
  from Cons obtain cs where cs: "kwargs_clauses t kwargs = Inr cs"
    "\<forall>k v c. (k, v) \<in> set kwargs \<longrightarrow> table_column t k = Some c \<longrightarrow> make_clause c v \<in> set cs"
    by auto
  show ?case using kv c cs by auto
qed

text \<open>
  Claim C9. For every column and an empty list, set or tuple as the value, \<open>make_clause\<close>
  yields a clause that is false on every row; a clause built from keyword arguments, one
  of which has an empty list as its value, is built without an error and is false on every
  row, so the query on it matches nothing.
\<close>

theorem make_clause_empty_matches_nothing:
  "eval_expr cx d e (make_clause key (KList [])) = Some False
   \<and> ((\<forall>kv \<in> set kwargs. table_column t (fst kv) \<noteq> None) \<and> (k, KList []) \<in> set kwargs \<longrightarrow>
        (\<exists>clause. make_kwargs_clause t kwargs = Inr clause
            \<and> (\<forall>e'. eval_expr cx d e' clause = Some False)
            \<and> (t = Bundle \<longrightarrow> bundle_rows_where cx d clause = [] \<and> batch_get_bundles cx d kwargs = Inr [])))"
proof -
  have "\<exists>clause. make_kwargs_clause t kwargs = Inr clause
            \<and> (\<forall>e'. eval_expr cx d e' clause = Some False)
            \<and> (t = Bundle \<longrightarrow> bundle_rows_where cx d clause = [] \<and> batch_get_bundles cx d kwargs = Inr [])"
    if cols: "\<forall>kv \<in> set kwargs. table_column t (fst kv) \<noteq> None" and mem: "(k, KList []) \<in> set kwargs"
  proof -
    from cols mem obtain c where c: "table_column t k = Some c" by fastforce
    from kwargs_clauses_ok[OF cols] obtain cs where cs: "kwargs_clauses t kwargs = Inr cs"
      "\<forall>k v c. (k, v) \<in> set kwargs \<longrightarrow> table_column t k = Some c \<longrightarrow> make_clause c v \<in> set cs"
      by blast
    from cs(2) mem c have "make_clause c (KList []) \<in> set cs" by blast
    then have "make_clause c (KList []) \<in> set (TrueC # cs)" by simp
    moreover have "eval_expr cx d e' (make_clause c (KList [])) = Some False" for e' by simp
    ultimately have f: "eval_expr cx d e' (and_of (TrueC # cs)) = Some False" for e'
      using eval_and_of_False by blast
    have m: "make_kwargs_clause t kwargs = Inr (and_of (TrueC # cs))"
      using cs(1) by (simp add: make_kwargs_clause_def)
    have r: "bundle_rows_where cx d (and_of (TrueC # cs)) = []"
      unfolding bundle_rows_where_def using f by simp
    have "batch_get_bundles cx d kwargs = Inr []" if "t = Bundle"
      using that m r by (simp add: batch_get_bundles_def)
    with m f r show ?thesis by blast
  qed
  then show ?thesis by simp
qed

theorem make_clause_empty_matches_nothing_witness:
  "table_column Bundle ''uuid'' = Some B_uuid \<and> table_column Bundle ''state'' = Some B_state
   \<and> (\<exists>clause. make_kwargs_clause Bundle [(''state'', KValue (VStr ''ready'')), (''uuid'', KList [])] = Inr clause
         \<and> eval_expr cx0 db0 no_rows clause = Some False)
   \<and> batch_get_bundles cx0 db0 [(''state'', KValue (VStr ''ready'')), (''uuid'', KList [])] = Inr []"
proof -
  have a: "table_column Bundle ''uuid'' = Some B_uuid" "table_column Bundle ''state'' = Some B_state"
    by (simp_all add: table_column_def column_names_def)
  then have cols: "\<forall>kv \<in> set [(''state'', KValue (VStr ''ready'')), (''uuid'', KList [])]. table_column Bundle (fst kv) \<noteq> None"
    by simp
  have mem: "(''uuid'', KList []) \<in> set [(''state'', KValue (VStr ''ready'')), (''uuid'', KList [])]" by simp
  from make_clause_empty_matches_nothing[of cx0 db0 no_rows B_uuid
      "[(''state'', KValue (VStr ''ready'')), (''uuid'', KList [])]" Bundle "''uuid''"] cols mem
  have "\<exists>clause. make_kwargs_clause Bundle [(''state'', KValue (VStr ''ready'')), (''uuid'', KList [])] = Inr clause
            \<and> (\<forall>e'. eval_expr cx0 db0 e' clause = Some False)
            \<and> (bundle_rows_where cx0 db0 clause = [] \<and> batch_get_bundles cx0 db0 [(''state'', KValue (VStr ''ready'')), (''uuid'', KList [])] = Inr [])"
    by blast
  with a show ?thesis by blast
qed

lemma uuid_clause:
  "make_kwargs_clause Bundle [(''uuid'', KValue (VStr uuid))] = Inr (AndC TrueC (EqLit B_uuid (VStr uuid)))"
  by (simp add: make_kwargs_clause_def table_column_def column_names_def col_eq_def)

lemma uuid_rows:
  "bundle_rows_where cx d (AndC TrueC (EqLit B_uuid (VStr uuid))) = filter (\<lambda>r. b_uuid r = uuid) (cl_bundle d)"
  by (simp add: bundle_rows_where_def no_rows_def of_row_def and3_True_iff)

lemma singleton_list: "set xs = {a} \<Longrightarrow> distinct xs \<Longrightarrow> xs = [a]"
  by (cases xs; cases "tl xs") auto

lemma fold_add_dependency:
  "\<forall>r \<in> set rows. d_child_uuid r = u \<Longrightarrow>
   fold_err add_dependency rows [(u, b)] = Inr [(u, b\<lparr>bv_dependencies := bv_dependencies b @ rows\<rparr>)]"
  by (induction rows arbitrary: b) (auto simp: add_dependency_def)

lemma fold_add_metadata:
  "\<forall>r \<in> set rows. m_bundle_uuid r = u \<Longrightarrow>
   fold_err add_metadata rows [(u, b)] = Inr [(u, b\<lparr>bv_metadata := bv_metadata b @ rows\<rparr>)]"
  by (induction rows arbitrary: b) (auto simp: add_metadata_def)

definition bundle_of_row :: "db \<Rightarrow> bundle_row \<Rightarrow> bundle_obj" where
  "bundle_of_row d r =
     \<lparr>bv_row = r,
      bv_dependencies = filter (\<lambda>x. d_child_uuid x = b_uuid r) (cl_bundle_dependency d),
      bv_metadata = filter (\<lambda>x. m_bundle_uuid x = b_uuid r) (cl_bundle_metadata d)\<rparr>"

lemma batch_get_single:
  assumes ok: "dict_order_ok cx"
    and one: "filter (\<lambda>r. b_uuid r = uuid) (cl_bundle d) = [r]"
  shows "batch_get_bundles cx d [(''uuid'', KValue (VStr uuid))] =
     (case bundle_subclass_error cx (b_bundle_type r) of
        Some err \<Rightarrow> Inl err
      | None \<Rightarrow> (case validate_error cx (bundle_of_row d r) of
                   Some err \<Rightarrow> Inl err
                 | None \<Rightarrow> Inr [bundle_of_row d r]))"
proof -
  have "r \<in> set (filter (\<lambda>r. b_uuid r = uuid) (cl_bundle d))" using one by simp
  then have ru: "b_uuid r = uuid" by simp
  have "set (dict_order cx [uuid]) = {uuid}" "distinct (dict_order cx [uuid])"
    using ok by (simp_all add: dict_order_ok_def)
  then have ord: "dict_order cx [uuid] = [uuid]" by (rule singleton_list)
  have bv: "bundle_values_of cx [r] = [(uuid, \<lparr>bv_row = r, bv_dependencies = [], bv_metadata = []\<rparr>)]"
    using ru ord by (simp add: bundle_values_of_def last_with_uuid_def List.map_filter_simps)
  let ?deps = "filter (\<lambda>x. d_child_uuid x = b_uuid r) (cl_bundle_dependency d)"
  let ?mds = "filter (\<lambda>x. m_bundle_uuid x = b_uuid r) (cl_bundle_metadata d)"
  have rows: "bundle_rows_where cx d (AndC TrueC (EqLit B_uuid (VStr uuid))) = [r]"
    using one by (simp add: uuid_rows)
  have d1: "fold_err add_dependency ?deps [(uuid, \<lparr>bv_row = r, bv_dependencies = [], bv_metadata = []\<rparr>)] =
      Inr [(uuid, \<lparr>bv_row = r, bv_dependencies = ?deps, bv_metadata = []\<rparr>)]"
    using fold_add_dependency[of ?deps uuid "\<lparr>bv_row = r, bv_dependencies = [], bv_metadata = []\<rparr>"] ru
    by simp
  have d2: "fold_err add_metadata ?mds [(uuid, \<lparr>bv_row = r, bv_dependencies = ?deps, bv_metadata = []\<rparr>)] =
      Inr [(uuid, \<lparr>bv_row = r, bv_dependencies = ?deps, bv_metadata = ?mds\<rparr>)]"
    using fold_add_metadata[of ?mds uuid "\<lparr>bv_row = r, bv_dependencies = ?deps, bv_metadata = []\<rparr>"] ru
    by simp
  have b: "\<lparr>bv_row = r, bv_dependencies = ?deps, bv_metadata = ?mds\<rparr> = bundle_of_row d r"
    by (simp add: bundle_of_row_def)
  have br: "bv_row (bundle_of_row d r) = r" by (simp add: bundle_of_row_def)
  show ?thesis
    by (auto simp: batch_get_bundles_def uuid_clause rows bv d1 d2 b br Let_def split: option.splits)
qed

text \<open>
  Claim C8, as amended. \<open>get_bundle\<close> fails with a \<open>UsageError\<close> when no bundle row has the
  uuid. When exactly one row has it, and the bundle constructs and validates, the result
  is the bundle of that row with its dependency rows and its metadata rows.
\<close>

theorem get_bundle_found_or_usage_error:
  "((\<forall>r \<in> set (cl_bundle d). b_uuid r \<noteq> uuid) \<longrightarrow> get_bundle cx d uuid = Inl UsageError)
   \<and> (dict_order_ok cx \<and> filter (\<lambda>r. b_uuid r = uuid) (cl_bundle d) = [r]
        \<and> bundle_subclass_error cx (b_bundle_type r) = None
        \<and> validate_error cx (bundle_of_row d r) = None
      \<longrightarrow> get_bundle cx d uuid = Inr (bundle_of_row d r))"
proof -
  have "get_bundle cx d uuid = Inl UsageError" if "\<forall>r \<in> set (cl_bundle d). b_uuid r \<noteq> uuid"
  proof -
    from that have "filter (\<lambda>r. b_uuid r = uuid) (cl_bundle d) = []" by (simp add: filter_empty_conv)
    then show ?thesis
      by (simp add: get_bundle_def batch_get_bundles_def uuid_clause uuid_rows)
  qed
  moreover have "get_bundle cx d uuid = Inr (bundle_of_row d r)"
    if "dict_order_ok cx" "filter (\<lambda>r. b_uuid r = uuid) (cl_bundle d) = [r]"
      "bundle_subclass_error cx (b_bundle_type r) = None" "validate_error cx (bundle_of_row d r) = None"
    using batch_get_single[OF that(1,2)] that(3,4) by (simp add: get_bundle_def)
  ultimately show ?thesis by blast
qed

definition bundle0 :: "int \<Rightarrow> string \<Rightarrow> string \<Rightarrow> string option \<Rightarrow> bundle_row" where
  "bundle0 i u st owner =
     \<lparr>b_id = i, b_uuid = u, b_bundle_type = ''run'', b_command = Some ''echo'', b_data_hash = None,
      b_state = st, b_owner_id = owner\<rparr>"

definition db_two :: db where
  "db_two = db0\<lparr>cl_bundle := [bundle0 1 ''a'' ''ready'' (Some ''alice''), bundle0 2 ''b'' ''ready'' (Some ''bob'')],
               cl_bundle_dependency := [dep ''b'' ''a'']\<rparr>"

theorem get_bundle_found_or_usage_error_witness:
  "get_bundle cx0 db_two ''c'' = Inl UsageError
   \<and> get_bundle cx0 db_two ''b'' =
       Inr \<lparr>bv_row = bundle0 2 ''b'' ''ready'' (Some ''bob''), bv_dependencies = [dep ''b'' ''a''], bv_metadata = []\<rparr>"
proof -
  have none: "\<forall>r \<in> set (cl_bundle db_two). b_uuid r \<noteq> ''c''"
    by (simp add: db_two_def db0_def bundle0_def)
  have one: "filter (\<lambda>r. b_uuid r = ''b'') (cl_bundle db_two) = [bundle0 2 ''b'' ''ready'' (Some ''bob'')]"
    by (simp add: db_two_def db0_def bundle0_def)
  have sub: "bundle_subclass_error cx0 (b_bundle_type (bundle0 2 ''b'' ''ready'' (Some ''bob''))) = None"
    and val: "validate_error cx0 (bundle_of_row db_two (bundle0 2 ''b'' ''ready'' (Some ''bob''))) = None"
    by (simp_all add: cx0_def)
  have b: "bundle_of_row db_two (bundle0 2 ''b'' ''ready'' (Some ''bob'')) =
      \<lparr>bv_row = bundle0 2 ''b'' ''ready'' (Some ''bob''), bv_dependencies = [dep ''b'' ''a''], bv_metadata = []\<rparr>"
    by (simp add: bundle_of_row_def db_two_def db0_def bundle0_def dep_def)
  from get_bundle_found_or_usage_error[of db_two "''c''" cx0] none
  have 1: "get_bundle cx0 db_two ''c'' = Inl UsageError" by blast
  from get_bundle_found_or_usage_error[of db_two "''b''" cx0 "bundle0 2 ''b'' ''ready'' (Some ''bob'')"]
    cx0_dict_order_ok one sub val
  have 2: "get_bundle cx0 db_two ''b'' = Inr (bundle_of_row db_two (bundle0 2 ''b'' ''ready'' (Some ''bob'')))"
    by blast
  from 1 2 b show ?thesis by simp
qed

definition db_dup :: db where
  "db_dup = db0\<lparr>cl_bundle := [bundle0 1 ''u'' ''ready'' (Some ''alice''), bundle0 2 ''u'' ''ready'' (Some ''bob'')]\<rparr>"

text \<open>
  Claim C8 as stated fails: with two bundle rows of the same uuid \<open>get_bundle\<close> raises no
  \<open>UsageError\<close>. (The branch of the source for several bundles raises an
  \<open>IntegrityError\<close>; here the rows collapse in the dictionary keyed by uuid and the later
  row is returned.)
\<close>

theorem get_bundle_duplicate_counterexample:
  "length (filter (\<lambda>r. b_uuid r = ''u'') (cl_bundle db_dup)) = 2
   \<and> get_bundle cx0 db_dup ''u'' =
       Inr \<lparr>bv_row = bundle0 2 ''u'' ''ready'' (Some ''bob''), bv_dependencies = [], bv_metadata = []\<rparr>
   \<and> get_bundle cx0 db_dup ''u'' \<noteq> Inl UsageError"
proof -
  have rows: "filter (\<lambda>r. b_uuid r = ''u'') (cl_bundle db_dup) =
      [bundle0 1 ''u'' ''ready'' (Some ''alice''), bundle0 2 ''u'' ''ready'' (Some ''bob'')]"
    by (simp add: db_dup_def db0_def bundle0_def)
  have bv: "bundle_values_of cx0 [bundle0 1 ''u'' ''ready'' (Some ''alice''), bundle0 2 ''u'' ''ready'' (Some ''bob'')]
      = [(''u'', \<lparr>bv_row = bundle0 2 ''u'' ''ready'' (Some ''bob''), bv_dependencies = [], bv_metadata = []\<rparr>)]"
    by (simp add: bundle_values_of_def last_with_uuid_def List.map_filter_simps cx0_def bundle0_def)
  have g: "get_bundle cx0 db_dup ''u'' =
       Inr \<lparr>bv_row = bundle0 2 ''u'' ''ready'' (Some ''bob''), bv_dependencies = [], bv_metadata = []\<rparr>"
  proof -
    have e: "cl_bundle_dependency db_dup = []" "cl_bundle_metadata db_dup = []"
      by (simp_all add: db_dup_def db0_def)
    have c: "bundle_subclass_error cx0 = (\<lambda>t. None)" "validate_error cx0 = (\<lambda>b. None)"
      by (simp_all add: cx0_def)
    show ?thesis
      by (simp add: get_bundle_def batch_get_bundles_def uuid_clause uuid_rows rows bv e c Let_def)
  qed
  show ?thesis using rows g by simp
qed

text \<open>
  An update that names no column: the statement is rejected, the transaction rolls back
  and the bundles in memory are left alone.
\<close>

lemma batch_update_bundles_empty_update:
  assumes "\<not> names_column update" and "bundles \<noteq> []"
    and "batch_update_clause bundles condition = Inr clause"
  shows "batch_update_bundles cx d bundles update condition = (Inl EngineError, d, bundles)"
proof -
  from assms(1) have "u_id update = None" "u_uuid update = None" by (simp_all add: names_column_def)
  with assms show ?thesis
    by (simp add: batch_update_bundles_def precondition_def engine_begin_def batch_update_body_def
        apply_update_def)
qed

text \<open>
  Claim C6, as amended. When the update of \<open>batch_update_bundles\<close> names a column and
  matches a number of rows other than the number of distinct ids of the bundles supplied,
  the call returns \<open>False\<close> and no bundle in memory is modified; the rows that did match
  are updated and the transaction commits.
\<close>

theorem batch_update_bundles_mismatch:
  assumes "u_id update = None" and "u_uuid update = None" and "names_column update"
    and "bundles \<noteq> []"
    and "batch_update_clause bundles condition = Inr clause"
    and "length (bundle_rows_where cx d clause) \<noteq> length (remdups (map (\<lambda>b. b_id (bv_row b)) bundles))"
  shows "batch_update_bundles cx d bundles update condition =
     (Inr False,
      d\<lparr>cl_bundle := map (\<lambda>r. if r \<in> set (bundle_rows_where cx d clause) then set_columns update r else r)
                          (cl_bundle d)\<rparr>,
      bundles)"
proof -
  have m: "(r \<in> set (bundle_rows_where cx d clause)) =
      (r \<in> set (cl_bundle d) \<and> eval_expr cx d (no_rows\<lparr>e_bundle := Some r\<rparr>) clause = Some True)" for r
    by (auto simp: bundle_rows_where_def)
  have "map (\<lambda>r. if eval_expr cx d (no_rows\<lparr>e_bundle := Some r\<rparr>) clause = Some True then set_columns update r else r) (cl_bundle d)
      = map (\<lambda>r. if r \<in> set (bundle_rows_where cx d clause) then set_columns update r else r) (cl_bundle d)"
    by (rule map_cong) (auto simp: m)
  with assms show ?thesis
    by (simp add: batch_update_bundles_def precondition_def engine_begin_def batch_update_body_def
        apply_update_def Let_def bundle_rows_where_def)
qed

definition no_update :: bundle_update where
  "no_update = \<lparr>u_id = None, u_uuid = None, u_bundle_type = None, u_command = None,
               u_data_hash = None, u_state = None, u_owner_id = None\<rparr>"

definition obj0 :: "bundle_row \<Rightarrow> bundle_obj" where
  "obj0 r = \<lparr>bv_row = r, bv_dependencies = [], bv_metadata = []\<rparr>"

definition two_bundles :: "bundle_obj list" where
  "two_bundles = [obj0 (bundle0 1 ''a'' ''ready'' (Some ''alice'')), obj0 (bundle0 3 ''c'' ''ready'' (Some ''alice''))]"

lemma two_bundles_clause:
  "batch_update_clause two_bundles [] = Inr (InList B_id [VInt 1, VInt 3])"
  by (simp add: batch_update_clause_def two_bundles_def obj0_def bundle0_def)

lemma two_bundles_rows:
  "bundle_rows_where cx0 db_two (InList B_id [VInt 1, VInt 3]) = [bundle0 1 ''a'' ''ready'' (Some ''alice'')]"
  by (simp add: bundle_rows_where_def db_two_def db0_def bundle0_def no_rows_def of_row_def sql_in_def)

theorem batch_update_bundles_mismatch_witness:
  "names_column (no_update\<lparr>u_state := Some ''staged''\<rparr>)
   \<and> batch_update_bundles cx0 db_two two_bundles (no_update\<lparr>u_state := Some ''staged''\<rparr>) [] =
     (Inr False,
      db_two\<lparr>cl_bundle := [bundle0 1 ''a'' ''staged'' (Some ''alice''), bundle0 2 ''b'' ''ready'' (Some ''bob'')]\<rparr>,
      two_bundles)"
proof -
  have 1: "u_id (no_update\<lparr>u_state := Some ''staged''\<rparr>) = None" "u_uuid (no_update\<lparr>u_state := Some ''staged''\<rparr>) = None"
    by (simp_all add: no_update_def)
  have n: "names_column (no_update\<lparr>u_state := Some ''staged''\<rparr>)" by (simp add: names_column_def)
  have 2: "two_bundles \<noteq> []" by (simp add: two_bundles_def)
  have 3: "length (bundle_rows_where cx0 db_two (InList B_id [VInt 1, VInt 3]))
      \<noteq> length (remdups (map (\<lambda>b. b_id (bv_row b)) two_bundles))"
    by (simp add: two_bundles_rows two_bundles_def obj0_def bundle0_def)
  have 4: "map (\<lambda>r. if r \<in> set (bundle_rows_where cx0 db_two (InList B_id [VInt 1, VInt 3]))
                    then set_columns (no_update\<lparr>u_state := Some ''staged''\<rparr>) r else r) (cl_bundle db_two)
      = [bundle0 1 ''a'' ''staged'' (Some ''alice''), bundle0 2 ''b'' ''ready'' (Some ''bob'')]"
    by (simp add: two_bundles_rows) (simp add: db_two_def db0_def bundle0_def set_columns_def no_update_def upd_def)
  from batch_update_bundles_mismatch[OF 1 n 2 two_bundles_clause 3] 4 n show ?thesis by simp
qed

text \<open>
  Claim C6 as stated fails: two bundles are supplied, one row matches, the call returns
  \<open>False\<close> and the matching row is modified in the database.
\<close>

theorem batch_update_bundles_partial_counterexample:
  "length (bundle_rows_where cx0 db_two (InList B_id [VInt 1, VInt 3])) = 1
   \<and> length (remdups (map (\<lambda>b. b_id (bv_row b)) two_bundles)) = 2
   \<and> (\<exists>d'. batch_update_bundles cx0 db_two two_bundles (no_update\<lparr>u_state := Some ''staged''\<rparr>) [] =
            (Inr False, d', two_bundles)
          \<and> cl_bundle d' \<noteq> cl_bundle db_two
          \<and> map b_state (cl_bundle db_two) = [''ready'', ''ready'']
          \<and> map b_state (cl_bundle d') = [''staged'', ''ready''])"
proof -
  have run: "batch_update_bundles cx0 db_two two_bundles (no_update\<lparr>u_state := Some ''staged''\<rparr>) [] =
     (Inr False,
      db_two\<lparr>cl_bundle := [bundle0 1 ''a'' ''staged'' (Some ''alice''), bundle0 2 ''b'' ''ready'' (Some ''bob'')]\<rparr>,
      two_bundles)"
    by (simp add: batch_update_bundles_def precondition_def engine_begin_def batch_update_body_def
        apply_update_def names_column_def Let_def two_bundles_clause no_update_def)
       (simp add: two_bundles_def obj0_def db_two_def db0_def bundle0_def no_rows_def of_row_def sql_in_def
        set_columns_def upd_def)
  have a: "length (bundle_rows_where cx0 db_two (InList B_id [VInt 1, VInt 3])) = 1"
    by (simp add: two_bundles_rows)
  have b: "length (remdups (map (\<lambda>b. b_id (bv_row b)) two_bundles)) = 2"
    by (simp add: two_bundles_def obj0_def bundle0_def)
  have c: "map b_state (cl_bundle db_two) = [''ready'', ''ready'']"
    by (simp add: db_two_def db0_def bundle0_def)
  show ?thesis
    using run a b c by (simp add: bundle0_def db_two_def db0_def)
qed

lemma run_delete_4:
  "run_statements (delete_statements uuids) 4 d =
     delete_dependencies uuids (delete_metadata uuids (delete_items uuids (delete_permissions uuids d)))"
  by (simp add: run_statements_def delete_statements_def)

lemma run_delete_5:
  "run_statements (delete_statements uuids) (length (delete_statements uuids)) d =
     delete_bundle_rows uuids (run_statements (delete_statements uuids) 4 d)"
  by (simp add: run_statements_def delete_statements_def)

lemma delete_bundles_success:
  "delete_bundles cx d uuids = (Inr (), d') \<Longrightarrow>
     d' = delete_bundle_rows uuids (run_statements (delete_statements uuids) 4 d)"
  by (auto simp: delete_bundles_def engine_begin_def run_delete_5 split: sum.splits)

text \<open>
  Claim C7, as amended. When \<open>delete_bundles\<close> succeeds, the permission rows, the worksheet
  items, the metadata rows and the dependency rows that belong to the deleted bundles (the
  dependency rows whose child is deleted) are gone before the bundle rows are touched,
  every other row of those tables is kept, and then the bundle rows are removed.
\<close>

theorem delete_bundles_cascade:
  assumes "delete_bundles cx d uuids = (Inr (), d')"
  shows "cl_bundle (run_statements (delete_statements uuids) 4 d) = cl_bundle d
    \<and> cl_group_bundle_permission (run_statements (delete_statements uuids) 4 d) = cl_group_bundle_permission d'
    \<and> cl_worksheet_item (run_statements (delete_statements uuids) 4 d) = cl_worksheet_item d'
    \<and> cl_bundle_metadata (run_statements (delete_statements uuids) 4 d) = cl_bundle_metadata d'
    \<and> cl_bundle_dependency (run_statements (delete_statements uuids) 4 d) = cl_bundle_dependency d'
    \<and> cl_group_bundle_permission d' = filter (\<lambda>r. p_object_uuid r \<notin> set uuids) (cl_group_bundle_permission d)
    \<and> cl_worksheet_item d' = filter (\<lambda>r. wi_bundle_uuid r \<notin> Some ` set uuids) (cl_worksheet_item d)
    \<and> cl_bundle_metadata d' = filter (\<lambda>r. m_bundle_uuid r \<notin> set uuids) (cl_bundle_metadata d)
    \<and> cl_bundle_dependency d' = filter (\<lambda>r. d_child_uuid r \<notin> set uuids) (cl_bundle_dependency d)
    \<and> cl_bundle d' = filter (\<lambda>r. b_uuid r \<notin> set uuids) (cl_bundle d)"
proof -
  have i: "(\<not> in_opt x uuids) = (x \<notin> Some ` set uuids)" for x
    by (cases x) (auto simp: in_opt_def)
  from delete_bundles_success[OF assms] show ?thesis
    by (simp add: run_delete_4 delete_bundle_rows_def delete_dependencies_def delete_metadata_def
        delete_items_def delete_permissions_def i)
qed

theorem delete_bundles_cascade_witness:
  "(\<exists>d'. delete_bundles cx0 db_two [''b''] = (Inr (), d')
      \<and> cl_bundle d' = [bundle0 1 ''a'' ''ready'' (Some ''alice'')]
      \<and> cl_bundle_dependency d' = []
      \<and> cl_bundle (run_statements (delete_statements [''b'']) 4 db_two) = cl_bundle db_two
      \<and> cl_bundle_dependency (run_statements (delete_statements [''b'']) 4 db_two) = [])"
proof -
  have "check_not_running cx0 db_two [''b''] = Inr ()"
    by (simp add: check_not_running_def db_two_def db0_def bundle0_def cx0_def)
  then obtain d' where run: "delete_bundles cx0 db_two [''b''] = (Inr (), d')"
    by (simp add: delete_bundles_def engine_begin_def)
  note t = delete_bundles_cascade[OF run]
  have "filter (\<lambda>r. d_child_uuid r \<notin> set [''b'']) (cl_bundle_dependency db_two) = []"
    "filter (\<lambda>r. b_uuid r \<notin> set [''b'']) (cl_bundle db_two) = [bundle0 1 ''a'' ''ready'' (Some ''alice'')]"
    by (simp_all add: db_two_def db0_def dep_def bundle0_def)
  with t run show ?thesis by simp
qed

text \<open>
  Claim C7 as stated fails for \<open>bundle_dependency\<close>: a dependency row of a surviving bundle
  whose parent is deleted stays, and names a bundle that is gone.
\<close>


theorem delete_bundles_parent_counterexample:
  "(\<exists>d'. delete_bundles cx0 db_two [''a''] = (Inr (), d')
      \<and> cl_bundle d' = [bundle0 2 ''b'' ''ready'' (Some ''bob'')]
      \<and> cl_bundle_dependency d' = [dep ''b'' ''a'']
      \<and> d_parent_uuid (dep ''b'' ''a'') \<in> set [''a''])"
  by (simp add: delete_bundles_def check_not_running_def engine_begin_def run_statements_def
      delete_statements_def delete_bundle_rows_def delete_dependencies_def delete_metadata_def
      delete_items_def delete_permissions_def db_two_def db0_def bundle0_def cx0_def dep_def in_opt_def)

section \<open>Dependency graph walker\<close>

text \<open>
  \<open>get_children_uuids\<close>: the dictionary from each of \<open>uuids\<close> to the children of its
  dependency rows, in row order, as an association list in iteration order.
\<close>

definition get_children_uuids :: "ctx \<Rightarrow> db \<Rightarrow> string list \<Rightarrow> (string \<times> string list) list" where
  "get_children_uuids cx d uuids =
     (let rows = filter (\<lambda>r. d_parent_uuid r \<in> set uuids) (cl_bundle_dependency d)
      in map (\<lambda>uuid. (uuid, map d_child_uuid (filter (\<lambda>r. d_parent_uuid r = uuid) rows)))
             (dict_order cx uuids))"

text \<open>The body of the innermost loop of \<open>get_self_and_descendants\<close>, on one uuid.\<close>

fun visit :: "string \<Rightarrow> string list \<times> string list \<Rightarrow> string list \<times> string list" where
  "visit uuid (new_frontier, visited) =
     (if uuid \<in> set visited then (new_frontier, visited)
      else (new_frontier @ [uuid], visited @ [uuid]))"

text \<open>One round of the while loop: the new frontier and the new visited list.\<close>

definition expand :: "ctx \<Rightarrow> db \<Rightarrow> string list \<Rightarrow> string list \<Rightarrow> string list \<times> string list" where
  "expand cx d frontier visited =
     fold (\<lambda>l acc. fold visit l acc) (map snd (get_children_uuids cx d frontier)) ([], visited)"

text \<open>
  The depth: a Python integer, or the float infinity that callers pass for an unbounded
  walk (it stays positive whatever is subtracted).
\<close>

datatype depth = Depth int | Unbounded

fun depth_positive :: "depth \<Rightarrow> bool" where
  "depth_positive (Depth n) = (n > 0)"
| "depth_positive Unbounded = True"

fun depth_decrement :: "depth \<Rightarrow> depth" where
  "depth_decrement (Depth n) = Depth (n - 1)"
| "depth_decrement Unbounded = Unbounded"

text \<open>The bundles with a dependency row whose parent is in \<open>ps\<close>.\<close>

definition children_of :: "db \<Rightarrow> string set \<Rightarrow> string set" where
  "children_of d ps =
     {d_child_uuid r | r. r \<in> set (cl_bundle_dependency d) \<and> d_parent_uuid r \<in> ps}"

lemma fold_visit:
  "fold visit l (nf, vis) = (nf', vis') \<Longrightarrow>
     \<exists>new. nf' = nf @ new \<and> vis' = vis @ new \<and> set new = set l - set vis
        \<and> distinct new"
proof (induction l arbitrary: nf vis)
  case Nil
  then show ?case by simp
next
  case (Cons a l)
  show ?case
  proof (cases "a \<in> set vis")
    case True
    with Cons.prems have "fold visit l (nf, vis) = (nf', vis')" by simp
    from Cons.IH[OF this] True show ?thesis by auto
  next
    case False
    with Cons.prems have "fold visit l (nf @ [a], vis @ [a]) = (nf', vis')" by simp
    from Cons.IH[OF this] obtain new where
      n: "nf' = (nf @ [a]) @ new" "vis' = (vis @ [a]) @ new" "set new = set l - set (vis @ [a])" "distinct new"
      by blast
    show ?thesis
      apply (rule exI[of _ "a # new"])
      using n False by auto
  qed
qed

lemma fold_fold_visit:
  "fold (\<lambda>l acc. fold visit l acc) ls (nf, vis) = (nf', vis') \<Longrightarrow>
     \<exists>new. nf' = nf @ new \<and> vis' = vis @ new \<and> set new = (\<Union>l\<in>set ls. set l) - set vis
        \<and> distinct new"
proof (induction ls arbitrary: nf vis)
  case Nil
  then show ?case by simp
next
  case (Cons l ls)
  obtain nf1 vis1 where s: "fold visit l (nf, vis) = (nf1, vis1)" by (cases "fold visit l (nf, vis)")
  from fold_visit[OF s] obtain new1 where
    n1: "nf1 = nf @ new1" "vis1 = vis @ new1" "set new1 = set l - set vis" "distinct new1" by blast
  from Cons.prems s have "fold (\<lambda>l acc. fold visit l acc) ls (nf1, vis1) = (nf', vis')" by simp
  from Cons.IH[OF this] obtain new2 where
    n2: "nf' = nf1 @ new2" "vis' = vis1 @ new2" "set new2 = (\<Union>l\<in>set ls. set l) - set vis1" "distinct new2" by blast
  show ?case
    apply (rule exI[of _ "new1 @ new2"])
    using n1 n2 by auto
qed

lemma children_values:
  assumes "dict_order_ok cx"
  shows "(\<Union>l\<in>set (map snd (get_children_uuids cx d frontier)). set l) = children_of d (set frontier)"
  using assms by (auto simp: get_children_uuids_def children_of_def dict_order_ok_def)

lemma children_values_sub:
  shows "(\<Union>l\<in>set (map snd (get_children_uuids cx d frontier)). set l) \<subseteq> d_child_uuid ` set (cl_bundle_dependency d)"
  by (auto simp: get_children_uuids_def)

lemma expand_props:
  assumes "expand cx d frontier visited = (nf, vis')"
  shows "vis' = visited @ nf" "distinct nf" "set nf \<inter> set visited = {}"
     "set nf \<subseteq> d_child_uuid ` set (cl_bundle_dependency d)"
     "dict_order_ok cx \<Longrightarrow> set nf = children_of d (set frontier) - set visited"
proof -
  from assms have "fold (\<lambda>l acc. fold visit l acc) (map snd (get_children_uuids cx d frontier)) ([], visited) = (nf, vis')"
    by (simp add: expand_def)
  from fold_fold_visit[OF this] obtain new where
    n: "nf = [] @ new" "vis' = visited @ new"
       "set new = (\<Union>l\<in>set (map snd (get_children_uuids cx d frontier)). set l) - set visited" "distinct new"
    by blast
  show "vis' = visited @ nf" using n by simp
  show "distinct nf" using n by simp
  show "set nf \<inter> set visited = {}" using n by auto
  show "set nf \<subseteq> d_child_uuid ` set (cl_bundle_dependency d)" using n(1,3) children_values_sub[of cx d frontier] by auto
  show "set nf = children_of d (set frontier) - set visited" if "dict_order_ok cx"
    using n(1,3) children_values[OF that, of d frontier] by simp
qed

lemma walk_measure:
  assumes "frontier \<noteq> []" and e: "expand cx d frontier visited = (nf, vis')"
  shows "card (d_child_uuid ` set (cl_bundle_dependency d) - set vis') + (if nf = [] then 0 else 1)
       < card (d_child_uuid ` set (cl_bundle_dependency d) - set visited) + 1"
proof -
  let ?U = "d_child_uuid ` set (cl_bundle_dependency d)"
  note p = expand_props(1-4)[OF e]
  have fin: "finite (?U - set visited)" by simp
  show ?thesis
  proof (cases "nf = []")
    case True
    with p show ?thesis by simp
  next
    case False
    then obtain y where y: "y \<in> set nf" by (cases nf) auto
    with p have yU: "y \<in> ?U - set visited" "y \<notin> ?U - set vis'" by auto
    have "?U - set vis' \<subseteq> ?U - set visited" using p by auto
    with yU have "?U - set vis' \<subset> ?U - set visited" by blast
    from psubset_card_mono[OF fin this] False show ?thesis by simp
  qed
qed

function walk :: "ctx \<Rightarrow> db \<Rightarrow> string list \<Rightarrow> string list \<Rightarrow> depth \<Rightarrow> string list" where
  "walk cx d frontier visited depth =
     (if length frontier > 0 \<and> depth_positive depth then
        (case expand cx d frontier visited of
           (new_frontier, visited') \<Rightarrow> walk cx d new_frontier visited' (depth_decrement depth))
      else visited)"
  by pat_completeness auto
termination
proof (relation "measure (\<lambda>(cx, d, frontier, visited, depth).
          card (d_child_uuid ` set (cl_bundle_dependency d) - set visited) + (if frontier = [] then 0 else 1))",
       goal_cases)
  case 1
  show ?case by simp
next
  case (2 cx d frontier visited depth x1 x2)
  then show ?case
    using walk_measure[of frontier cx d visited x1 x2] by simp
qed

definition get_self_and_descendants :: "ctx \<Rightarrow> db \<Rightarrow> string list \<Rightarrow> depth \<Rightarrow> string list" where
  "get_self_and_descendants cx d uuids depth = walk cx d uuids uuids depth"


lemma walk_unfold:
  "walk cx d frontier visited depth =
     (if frontier \<noteq> [] \<and> depth_positive depth then
        walk cx d (fst (expand cx d frontier visited)) (snd (expand cx d frontier visited)) (depth_decrement depth)
      else visited)"
  by (subst walk.simps) (simp add: case_prod_beta)

declare walk.simps [simp del]

lemma walk_visited_subset: "set visited \<subseteq> set (walk cx d frontier visited depth)"
proof (induction cx d frontier visited depth rule: walk.induct)
  case (1 cx d frontier visited depth)
  show ?case
  proof (cases "0 < length frontier \<and> depth_positive depth")
    case True
    obtain nf vis' where e: "expand cx d frontier visited = (nf, vis')" by (cases "expand cx d frontier visited")
    from 1[OF True e[symmetric]] have "set vis' \<subseteq> set (walk cx d nf vis' (depth_decrement depth))" .
    moreover have "vis' = visited @ nf" using expand_props(1)[OF e] .
    ultimately show ?thesis using True e by (subst walk_unfold) auto
  next
    case False
    then show ?thesis by (subst walk_unfold) auto
  qed
qed

lemma walk_depth_suc_aux:
  "depth = Depth n \<Longrightarrow>
   set (walk cx d frontier visited depth) \<subseteq> set (walk cx d frontier visited (Depth (n + 1)))"
proof (induction cx d frontier visited depth arbitrary: n rule: walk.induct)
  case (1 cx d frontier visited depth)
  show ?case
  proof (cases "0 < length frontier \<and> depth_positive depth")
    case True
    obtain nf vis' where e: "expand cx d frontier visited = (nf, vis')" by (cases "expand cx d frontier visited")
    have dec: "depth_decrement depth = Depth (n - 1)" using 1(2) by simp
    from 1(1)[OF True e[symmetric] dec]
    have "set (walk cx d nf vis' (depth_decrement depth)) \<subseteq> set (walk cx d nf vis' (Depth (n - 1 + 1)))" .
    moreover have "walk cx d frontier visited depth = walk cx d nf vis' (depth_decrement depth)"
      using True e by (subst walk_unfold) simp
    moreover have "walk cx d frontier visited (Depth (n + 1)) = walk cx d nf vis' (Depth n)"
      using True e 1(2) by (subst walk_unfold) simp
    ultimately show ?thesis by simp
  next
    case False
    then have "walk cx d frontier visited depth = visited" by (subst walk_unfold) auto
    then show ?thesis using walk_visited_subset[of visited cx d frontier "Depth (n + 1)"] by simp
  qed
qed

lemma walk_depth_mono:
  assumes "d1 \<le> d2"
  shows "set (walk cx d frontier visited (Depth d1)) \<subseteq> set (walk cx d frontier visited (Depth d2))"
proof -
  have "set (walk cx d frontier visited (Depth d1)) \<subseteq> set (walk cx d frontier visited (Depth (d1 + int k)))" for k
  proof (induction k)
    case 0
    then show ?case by simp
  next
    case (Suc k)
    have "d1 + int (Suc k) = (d1 + int k) + 1" by simp
    then have "set (walk cx d frontier visited (Depth (d1 + int k)))
        \<subseteq> set (walk cx d frontier visited (Depth (d1 + int (Suc k))))"
      using walk_depth_suc_aux[OF refl, of cx d frontier visited "d1 + int k"] by metis
    with Suc show ?case by blast
  qed
  from this[of "nat (d2 - d1)"] assms show ?thesis by simp
qed

lemma walk_depth_unbounded_aux:
  "depth = Depth n \<Longrightarrow>
   set (walk cx d frontier visited depth) \<subseteq> set (walk cx d frontier visited Unbounded)"
proof (induction cx d frontier visited depth arbitrary: n rule: walk.induct)
  case (1 cx d frontier visited depth)
  show ?case
  proof (cases "0 < length frontier \<and> depth_positive depth")
    case True
    obtain nf vis' where e: "expand cx d frontier visited = (nf, vis')" by (cases "expand cx d frontier visited")
    have dec: "depth_decrement depth = Depth (n - 1)" using 1(2) by simp
    from 1(1)[OF True e[symmetric] dec]
    have "set (walk cx d nf vis' (depth_decrement depth)) \<subseteq> set (walk cx d nf vis' Unbounded)" .
    moreover have "walk cx d frontier visited depth = walk cx d nf vis' (depth_decrement depth)"
      using True e by (subst walk_unfold) simp
    moreover have "walk cx d frontier visited Unbounded = walk cx d nf vis' Unbounded"
      using True e by (subst walk_unfold) simp
    ultimately show ?thesis by simp
  next
    case False
    then have "walk cx d frontier visited depth = visited" by (subst walk_unfold) auto
    then show ?thesis using walk_visited_subset[of visited cx d frontier Unbounded] by simp
  qed
qed

lemma children_of_Un: "children_of d (A \<union> B) = children_of d A \<union> children_of d B"
  by (auto simp: children_of_def)

lemma walk_closed:
  assumes "dict_order_ok cx"
    and "set frontier \<subseteq> set visited"
    and "children_of d (set visited - set frontier) \<subseteq> set visited"
  shows "children_of d (set (walk cx d frontier visited Unbounded)) \<subseteq> set (walk cx d frontier visited Unbounded)"
  using assms
proof (induction cx d frontier visited "Unbounded" rule: walk.induct)
  case (1 cx d frontier visited)
  show ?case
  proof (cases "frontier = []")
    case True
    then have "walk cx d frontier visited Unbounded = visited" by (subst walk_unfold) simp
    with True 1(4) show ?thesis by simp
  next
    case False
    obtain nf vis' where e: "expand cx d frontier visited = (nf, vis')" by (cases "expand cx d frontier visited")
    note p = expand_props[OF e]
    have eq: "walk cx d frontier visited Unbounded = walk cx d nf vis' Unbounded"
      using False e by (subst walk_unfold) simp
    have nf: "set nf = children_of d (set frontier) - set visited" using p(5) 1(2) by simp
    have sub: "set nf \<subseteq> set vis'" using p(1) by simp
    have "set vis' - set nf = set visited" using p(1,3) by auto
    moreover have "set visited = (set visited - set frontier) \<union> set frontier" using 1(3) by auto
    then have "children_of d (set visited) = children_of d (set visited - set frontier) \<union> children_of d (set frontier)"
      using children_of_Un[of d "set visited - set frontier" "set frontier"] by simp
    then have "children_of d (set visited) \<subseteq> set vis'" using 1(4) nf p(1) by auto
    ultimately have cl: "children_of d (set vis' - set nf) \<subseteq> set vis'" by simp
    have c: "0 < length frontier \<and> depth_positive Unbounded" using False by simp
    from 1(1)[OF c e[symmetric]] 1(2) sub cl
    have "children_of d (set (walk cx d nf vis' Unbounded)) \<subseteq> set (walk cx d nf vis' Unbounded)" by simp
    with eq show ?thesis by simp
  qed
qed

lemma walk_distinct:
  assumes "distinct visited"
  shows "distinct (walk cx d frontier visited depth)"
  using assms
proof (induction cx d frontier visited depth rule: walk.induct)
  case (1 cx d frontier visited depth)
  show ?case
  proof (cases "0 < length frontier \<and> depth_positive depth")
    case True
    obtain nf vis' where e: "expand cx d frontier visited = (nf, vis')" by (cases "expand cx d frontier visited")
    note p = expand_props(1-3)[OF e]
    have "distinct vis'" using p 1(2) by auto
    from 1(1)[OF True e[symmetric] this] have "distinct (walk cx d nf vis' (depth_decrement depth))" .
    then show ?thesis using True e by (subst walk_unfold) simp
  next
    case False
    then show ?thesis using 1(2) by (subst walk_unfold) auto
  qed
qed

lemma expand_closed:
  assumes "dict_order_ok cx" and "children_of d (set frontier) \<subseteq> set visited"
  shows "expand cx d frontier visited = ([], visited)"
proof -
  obtain nf vis' where e: "expand cx d frontier visited = (nf, vis')" by (cases "expand cx d frontier visited")
  note p = expand_props[OF e]
  from p(5) assms have "set nf = {}" by auto
  with p(1) e show ?thesis by simp
qed

text \<open>
  Claim C5. Whatever the seeds, the walk at a smaller depth visits a subset of the walk at
  a larger depth, and of the unbounded walk. The unbounded walk ends in a fixed point:
  every child of a visited bundle is visited, so one more round of the loop over the whole
  result finds no new bundle. No bundle is visited twice: from distinct seeds the list
  returned is distinct at every depth.
\<close>


theorem get_self_and_descendants_monotone_closed:
  assumes "dict_order_ok cx"
  shows "(\<forall>d1 d2. d1 < d2 \<longrightarrow> set (get_self_and_descendants cx d uuids (Depth d1)) \<subseteq> set (get_self_and_descendants cx d uuids (Depth d2)))
    \<and> (\<forall>d1. set (get_self_and_descendants cx d uuids (Depth d1)) \<subseteq> set (get_self_and_descendants cx d uuids Unbounded))
    \<and> children_of d (set (get_self_and_descendants cx d uuids Unbounded)) \<subseteq> set (get_self_and_descendants cx d uuids Unbounded)
    \<and> expand cx d (get_self_and_descendants cx d uuids Unbounded) (get_self_and_descendants cx d uuids Unbounded)
         = ([], get_self_and_descendants cx d uuids Unbounded)
    \<and> (distinct uuids \<longrightarrow> (\<forall>dp. distinct (get_self_and_descendants cx d uuids dp)))"
proof -
  let ?R = "get_self_and_descendants cx d uuids Unbounded"
  have cl: "children_of d (set ?R) \<subseteq> set ?R"
    unfolding get_self_and_descendants_def using walk_closed[OF assms, of uuids uuids d] by (simp add: children_of_def)
  show ?thesis
    using cl expand_closed[OF assms cl] walk_depth_mono[of _ _ cx d uuids uuids] walk_depth_unbounded_aux[OF refl, of cx d uuids uuids]
      walk_distinct[of uuids cx d uuids]
    by (simp add: get_self_and_descendants_def)
qed

lemma walk_chain_1: "get_self_and_descendants cx0 db_chain [''a''] (Depth 1) = [''a'', ''b'']"
  by code_simp

lemma walk_chain_inf: "get_self_and_descendants cx0 db_chain [''a''] Unbounded = [''a'', ''b'', ''c'']"
  by code_simp

theorem get_self_and_descendants_monotone_closed_witness:
  "dict_order_ok cx0 \<and> distinct [''a'']
   \<and> get_self_and_descendants cx0 db_chain [''a''] (Depth 1) = [''a'', ''b'']
   \<and> get_self_and_descendants cx0 db_chain [''a''] Unbounded = [''a'', ''b'', ''c'']
   \<and> set (get_self_and_descendants cx0 db_chain [''a''] (Depth 1))
        \<subseteq> set (get_self_and_descendants cx0 db_chain [''a''] (Depth 2))
   \<and> children_of db_chain {''a'', ''b'', ''c''} \<subseteq> {''a'', ''b'', ''c''}
   \<and> expand cx0 db_chain [''a'', ''b'', ''c''] [''a'', ''b'', ''c''] = ([], [''a'', ''b'', ''c''])
   \<and> distinct (get_self_and_descendants cx0 db_chain [''a''] Unbounded)"
proof -
  note t = get_self_and_descendants_monotone_closed[OF cx0_dict_order_ok, of db_chain "[''a'']"]
  from t have m: "set (get_self_and_descendants cx0 db_chain [''a''] (Depth 1))
        \<subseteq> set (get_self_and_descendants cx0 db_chain [''a''] (Depth 2))" by simp
  from t have "distinct (get_self_and_descendants cx0 db_chain [''a''] Unbounded)" by simp
  moreover from t have "children_of db_chain (set (get_self_and_descendants cx0 db_chain [''a''] Unbounded))
      \<subseteq> set (get_self_and_descendants cx0 db_chain [''a''] Unbounded)" by blast
  moreover from t have "expand cx0 db_chain (get_self_and_descendants cx0 db_chain [''a''] Unbounded)
       (get_self_and_descendants cx0 db_chain [''a''] Unbounded) = ([], get_self_and_descendants cx0 db_chain [''a''] Unbounded)" by blast
  ultimately show ?thesis
    using m cx0_dict_order_ok walk_chain_1 walk_chain_inf by simp
qed

section \<open>Worksheet update protocol\<close>

text \<open>
  A row of \<open>worksheet_item\<close> from the dict the caller writes. The column \<open>value\<close> takes no
  null (the source writes the empty string for \<^verbatim>\<open>None\<close> in \<open>add_worksheet_item\<close> and in
  \<open>add_shadow_worksheet_items\<close>, until \<^verbatim>\<open>tables.py\<close> allows nulls): there is no row for a
  dict whose value is \<^verbatim>\<open>None\<close>.
\<close>

definition item_row :: "int \<Rightarrow> worksheet_item_value \<Rightarrow> worksheet_item_row option" where
  "item_row i v =
     (case iv_value v of
        None \<Rightarrow> None
      | Some s \<Rightarrow>
          Some \<lparr>wi_id = i, wi_worksheet_uuid = iv_worksheet_uuid v, wi_bundle_uuid = iv_bundle_uuid v,
                wi_subworksheet_uuid = iv_subworksheet_uuid v, wi_value = s,
                wi_type = iv_type v, wi_sort_key = iv_sort_key v\<rparr>)"

text \<open>
  The insert statement on a list of dicts: the rows are appended in order, each with the
  next id; the engine rejects the statement when one of the values is null.
\<close>

definition insert_items :: "db \<Rightarrow> worksheet_item_value list \<Rightarrow> error + db" where
  "insert_items d vs =
     (case those (map (\<lambda>(i, v). item_row (wi_next_id d + int i) v) (enumerate 0 vs)) of
        None \<Rightarrow> Inl EngineError
      | Some rows \<Rightarrow>
          Inr (d\<lparr>cl_worksheet_item := cl_worksheet_item d @ rows,
                 wi_next_id := wi_next_id d + int (length vs)\<rparr>))"

text \<open>
  \<^verbatim>\<open>do_multirow_insert(connection, cl_worksheet_item, values)\<close>: nothing is executed for
  an empty list.
\<close>

definition do_multirow_insert_items :: "db \<Rightarrow> worksheet_item_value list \<Rightarrow> error + db" where
  "do_multirow_insert_items d vs = (if vs \<noteq> [] then insert_items d vs else Inr d)"

text \<open>
  An item of \<open>new_items\<close> is the tuple \<open>(bundle_uuid, subworksheet_uuid, value, type)\<close>;
  each of the first three may be \<^verbatim>\<open>None\<close>.
\<close>

type_synonym item = "string option \<times> string option \<times> string option \<times> string"

definition new_item_values :: "string \<Rightarrow> int \<Rightarrow> item list \<Rightarrow> worksheet_item_value list" where
  "new_item_values worksheet_uuid last_item_id new_items =
     map (\<lambda>(i, (bundle_uuid, subworksheet_uuid, val, type)).
            \<lparr>iv_worksheet_uuid = worksheet_uuid, iv_bundle_uuid = bundle_uuid,
             iv_subworksheet_uuid = subworksheet_uuid, iv_value = val, iv_type = type,
             iv_sort_key = Some (last_item_id + int i - int (length new_items))\<rparr>)
         (enumerate 0 new_items)"

text \<open>
  The clause \<^verbatim>\<open>and_(worksheet_uuid == worksheet_uuid, id <= last_item_id)\<close> of
  \<open>update_worksheet\<close>, on a row of \<open>worksheet_item\<close>.
\<close>

definition update_clause :: "string \<Rightarrow> int \<Rightarrow> worksheet_item_row \<Rightarrow> bool" where
  "update_clause worksheet_uuid last_item_id r \<longleftrightarrow>
     wi_worksheet_uuid r = worksheet_uuid \<and> wi_id r \<le> last_item_id"

text \<open>
  \<open>update_worksheet\<close>: inside one transaction, delete the rows of the clause, compare the
  number of deleted rows with \<open>len\<close> (the parameter \<^verbatim>\<open>length\<close> of the source), then insert.
\<close>

definition update_worksheet_body ::
  "string \<Rightarrow> int \<Rightarrow> int \<Rightarrow> item list \<Rightarrow> db \<Rightarrow> error + (unit \<times> db)" where
  "update_worksheet_body worksheet_uuid last_item_id len new_items c =
     (let clause = update_clause worksheet_uuid last_item_id;
          rowcount = int (length (filter clause (cl_worksheet_item c)));
          c1 = c\<lparr>cl_worksheet_item := filter (\<lambda>r. \<not> clause r) (cl_worksheet_item c)\<rparr>
      in case precondition (rowcount \<le> len) of
           Inl e \<Rightarrow> Inl e
         | Inr _ \<Rightarrow>
             if rowcount < len then Inl UsageError
             else (case do_multirow_insert_items c1
                          (new_item_values worksheet_uuid last_item_id new_items) of
                     Inl e \<Rightarrow> Inl e
                   | Inr c2 \<Rightarrow> Inr ((), c2)))"

definition update_worksheet ::
  "db \<Rightarrow> string \<Rightarrow> int \<Rightarrow> int \<Rightarrow> item list \<Rightarrow> (error + unit) \<times> db" where
  "update_worksheet d worksheet_uuid last_item_id len new_items =
     engine_begin (update_worksheet_body worksheet_uuid last_item_id len new_items) d"

text \<open>The number of rows the delete statement of \<open>update_worksheet\<close> removes.\<close>

definition deleted_count :: "db \<Rightarrow> string \<Rightarrow> int \<Rightarrow> int" where
  "deleted_count d worksheet_uuid last_item_id =
     int (length (filter (update_clause worksheet_uuid last_item_id) (cl_worksheet_item d)))"

lemma new_item_values_length: "length (new_item_values w l xs) = length xs"
  by (simp add: new_item_values_def)

lemma new_item_values_nth:
  "i < length xs \<Longrightarrow>
   new_item_values w l xs ! i =
     \<lparr>iv_worksheet_uuid = w, iv_bundle_uuid = fst (xs ! i),
      iv_subworksheet_uuid = fst (snd (xs ! i)), iv_value = fst (snd (snd (xs ! i))),
      iv_type = snd (snd (snd (xs ! i))),
      iv_sort_key = Some (l + int i - int (length xs))\<rparr>"
  by (simp add: new_item_values_def nth_enumerate_eq split: prod.splits)

lemma those_nth:
  "those ys = Some rows \<Longrightarrow> length rows = length ys \<and> (\<forall>i < length ys. ys ! i = Some (rows ! i))"
proof (induction ys arbitrary: rows)
  case Nil
  then show ?case by simp
next
  case (Cons y ys)
  from Cons.prems obtain r rs where r: "y = Some r" "those ys = Some rs" "rows = r # rs"
    by (auto split: option.splits)
  from Cons.IH[OF r(2)] r(1,3) show ?case by (auto simp: nth_Cons split: nat.splits)
qed

lemma insert_items_rows:
  assumes "insert_items d vs = Inr d'"
  shows "\<exists>rows. cl_worksheet_item d' = cl_worksheet_item d @ rows \<and> length rows = length vs
           \<and> (\<forall>i < length vs. item_row (wi_next_id d + int i) (vs ! i) = Some (rows ! i))"
proof -
  let ?ys = "map (\<lambda>(i, v). item_row (wi_next_id d + int i) v) (enumerate 0 vs)"
  from assms obtain rows where t: "those ?ys = Some rows"
    and d': "d' = d\<lparr>cl_worksheet_item := cl_worksheet_item d @ rows, wi_next_id := wi_next_id d + int (length vs)\<rparr>"
    by (auto simp: insert_items_def split: option.splits)
  from those_nth[OF t] have "length rows = length vs"
    and "\<forall>i < length vs. item_row (wi_next_id d + int i) (vs ! i) = Some (rows ! i)"
    by (simp_all add: nth_enumerate_eq)
  with d' show ?thesis by auto
qed

lemma update_worksheet_success:
  assumes "update_worksheet d w l n xs = (Inr (), d')"
  shows "deleted_count d w l = n \<and>
     do_multirow_insert_items
       (d\<lparr>cl_worksheet_item := filter (\<lambda>r. \<not> update_clause w l r) (cl_worksheet_item d)\<rparr>)
       (new_item_values w l xs) = Inr d'"
  using assms
  by (auto simp: update_worksheet_def engine_begin_def update_worksheet_body_def Let_def
      precondition_def deleted_count_def split: if_splits sum.splits)

text \<open>
  Claim C3. When \<open>update_worksheet\<close> succeeds with a non-empty list of new items, the
  table holds the rows the clause spared followed by one inserted row per new item, in
  the order of the caller; the sort key of the row at position \<open>i\<close> (from 0) is
  \<open>last_item_id + i - len(new_items)\<close>, which is below \<open>last_item_id\<close>, and the sort
  keys increase strictly with the position.
\<close>

theorem update_worksheet_sort_keys:
  assumes "update_worksheet d w l n xs = (Inr (), d')" and "xs \<noteq> []"
  shows "\<exists>inserted. cl_worksheet_item d' = filter (\<lambda>r. \<not> update_clause w l r) (cl_worksheet_item d) @ inserted
     \<and> length inserted = length xs
     \<and> (\<forall>i < length xs. wi_sort_key (inserted ! i) = Some (l + int i - int (length xs))
            \<and> the (wi_sort_key (inserted ! i)) < l
            \<and> (wi_bundle_uuid (inserted ! i), wi_subworksheet_uuid (inserted ! i),
                Some (wi_value (inserted ! i)), wi_type (inserted ! i)) = xs ! i)
     \<and> (\<forall>i j. i < j \<and> j < length xs \<longrightarrow> the (wi_sort_key (inserted ! i)) < the (wi_sort_key (inserted ! j)))"
proof -
  let ?vs = "new_item_values w l xs"
  let ?c1 = "d\<lparr>cl_worksheet_item := filter (\<lambda>r. \<not> update_clause w l r) (cl_worksheet_item d)\<rparr>"
  have vs: "?vs \<noteq> []" using assms(2) new_item_values_length[of w l xs] by (cases "?vs") auto
  from update_worksheet_success[OF assms(1)] vs
  have "insert_items ?c1 ?vs = Inr d'" by (simp add: do_multirow_insert_items_def)
  from insert_items_rows[OF this] obtain rows where
    rows: "cl_worksheet_item d' = cl_worksheet_item ?c1 @ rows" "length rows = length ?vs"
      "\<forall>i < length ?vs. item_row (wi_next_id ?c1 + int i) (?vs ! i) = Some (rows ! i)"
    by blast
  have len: "length rows = length xs" using rows(2) by (simp add: new_item_values_length)
  have row: "item_row (wi_next_id d + int i) (?vs ! i) = Some (rows ! i)" if "i < length xs" for i
    using rows(3) that by (simp add: new_item_values_length)
  have shape: "\<exists>s. fst (snd (snd (xs ! i))) = Some s \<and>
      rows ! i = \<lparr>wi_id = wi_next_id d + int i, wi_worksheet_uuid = w, wi_bundle_uuid = fst (xs ! i),
                  wi_subworksheet_uuid = fst (snd (xs ! i)), wi_value = s,
                  wi_type = snd (snd (snd (xs ! i))),
                  wi_sort_key = Some (l + int i - int (length xs))\<rparr>"
    if "i < length xs" for i
    using row[OF that] that
    by (auto simp: item_row_def new_item_values_nth split: option.splits)
  have key: "wi_sort_key (rows ! i) = Some (l + int i - int (length xs))"
    and content: "(wi_bundle_uuid (rows ! i), wi_subworksheet_uuid (rows ! i),
        Some (wi_value (rows ! i)), wi_type (rows ! i)) = xs ! i"
    if "i < length xs" for i
    using shape[OF that] by (auto simp: prod_eq_iff)
  show ?thesis
    apply (rule exI[of _ rows])
    using rows(1) len key content by auto
qed

definition item0 :: "int \<Rightarrow> string \<Rightarrow> worksheet_item_row" where
  "item0 i w = \<lparr>wi_id = i, wi_worksheet_uuid = w, wi_bundle_uuid = None, wi_subworksheet_uuid = None,
               wi_value = ''text'', wi_type = ''markup'', wi_sort_key = None\<rparr>"

definition db_items :: db where
  "db_items = db0\<lparr>cl_worksheet_item := [item0 1 ''w'', item0 2 ''w'', item0 3 ''v'', item0 4 ''w''], wi_next_id := 5\<rparr>"

definition new_items0 :: "item list" where
  "new_items0 = [(Some ''b1'', None, Some '''', ''bundle''), (None, None, Some ''hello'', ''markup'')]"

lemma update_items_run:
  "update_worksheet db_items ''w'' 2 2 new_items0 =
     (Inr (), db_items\<lparr>cl_worksheet_item :=
        [item0 3 ''v'', item0 4 ''w'',
         \<lparr>wi_id = 5, wi_worksheet_uuid = ''w'', wi_bundle_uuid = Some ''b1'', wi_subworksheet_uuid = None,
          wi_value = '''', wi_type = ''bundle'', wi_sort_key = Some 0\<rparr>,
         \<lparr>wi_id = 6, wi_worksheet_uuid = ''w'', wi_bundle_uuid = None, wi_subworksheet_uuid = None,
          wi_value = ''hello'', wi_type = ''markup'', wi_sort_key = Some 1\<rparr>],
        wi_next_id := 7\<rparr>)"
  by (simp add: update_worksheet_def engine_begin_def update_worksheet_body_def precondition_def
      update_clause_def db_items_def db0_def item0_def new_items0_def do_multirow_insert_items_def
      insert_items_def new_item_values_def item_row_def enumerate_eq_zip upt_rec)

text \<open>
  An item whose value is \<^verbatim>\<open>None\<close>: the insert is rejected and the transaction rolls back,
  the rows of the clause are still there.
\<close>

lemma update_worksheet_null_value:
  "update_worksheet db_items ''w'' 2 2 [(Some ''b1'', None, None, ''bundle'')] = (Inl EngineError, db_items)"
  by (simp add: update_worksheet_def engine_begin_def update_worksheet_body_def precondition_def
      update_clause_def db_items_def db0_def item0_def do_multirow_insert_items_def
      insert_items_def new_item_values_def item_row_def enumerate_eq_zip upt_rec)

theorem update_worksheet_sort_keys_witness:
  "new_items0 \<noteq> [] \<and>
   (\<exists>d'. update_worksheet db_items ''w'' 2 2 new_items0 = (Inr (), d') \<and>
      (\<exists>inserted. cl_worksheet_item d' = [item0 3 ''v'', item0 4 ''w''] @ inserted
          \<and> map wi_sort_key inserted = [Some 0, Some 1]))"
proof -
  obtain d' where run: "update_worksheet db_items ''w'' 2 2 new_items0 = (Inr (), d')"
    using update_items_run by blast
  have ne: "new_items0 \<noteq> []" by (simp add: new_items0_def)
  from update_worksheet_sort_keys[OF run ne] obtain inserted where
    i: "cl_worksheet_item d' = filter (\<lambda>r. \<not> update_clause ''w'' 2 r) (cl_worksheet_item db_items) @ inserted"
      "length inserted = length new_items0"
      "\<forall>i < length new_items0. wi_sort_key (inserted ! i) = Some (2 + int i - int (length new_items0))
          \<and> the (wi_sort_key (inserted ! i)) < 2
          \<and> (wi_bundle_uuid (inserted ! i), wi_subworksheet_uuid (inserted ! i),
                Some (wi_value (inserted ! i)), wi_type (inserted ! i)) = new_items0 ! i"
    by blast
  have kept: "filter (\<lambda>r. \<not> update_clause ''w'' 2 r) (cl_worksheet_item db_items) = [item0 3 ''v'', item0 4 ''w'']"
    by (simp add: update_clause_def db_items_def db0_def item0_def)
  have len: "length inserted = 2" using i(2) by (simp add: new_items0_def)
  from i(3) have "wi_sort_key (inserted ! 0) = Some 0" "wi_sort_key (inserted ! 1) = Some 1"
    by (simp_all add: new_items0_def)
  with len have "map wi_sort_key inserted = [Some 0, Some 1]"
    by (cases inserted; cases "tl inserted") auto
  with run i(1) kept ne show ?thesis by auto
qed

text \<open>
  Claim C4. When the delete statement of \<open>update_worksheet\<close> removes fewer rows than the
  expected length the call fails with a \<open>UsageError\<close>, when it removes more the call
  fails with an integrity error, and in both cases the database is left as it was: the
  transaction rolls back, nothing is deleted and nothing is inserted.
\<close>

theorem update_worksheet_rejection:
  "(deleted_count d w l < n \<longrightarrow> update_worksheet d w l n xs = (Inl UsageError, d))
     \<and> (deleted_count d w l > n \<longrightarrow> update_worksheet d w l n xs = (Inl IntegrityError, d))"
  by (auto simp: update_worksheet_def engine_begin_def update_worksheet_body_def Let_def precondition_def deleted_count_def)

theorem update_worksheet_rejection_witness:
  "deleted_count db_items ''w'' 2 = 2
   \<and> update_worksheet db_items ''w'' 2 3 new_items0 = (Inl UsageError, db_items)
   \<and> update_worksheet db_items ''w'' 2 1 new_items0 = (Inl IntegrityError, db_items)
   \<and> cl_worksheet_item db_items = [item0 1 ''w'', item0 2 ''w'', item0 3 ''v'', item0 4 ''w'']"
proof -
  have c: "deleted_count db_items ''w'' 2 = 2"
    by (simp add: deleted_count_def update_clause_def db_items_def db0_def item0_def)
  from update_worksheet_rejection[of db_items "''w''" 2 3 new_items0] c
  have a: "update_worksheet db_items ''w'' 2 3 new_items0 = (Inl UsageError, db_items)" by simp
  from update_worksheet_rejection[of db_items "''w''" 2 1 new_items0] c
  have b: "update_worksheet db_items ''w'' 2 1 new_items0 = (Inl IntegrityError, db_items)" by simp
  show ?thesis using a b c by (simp add: db_items_def db0_def)
qed

section \<open>Permission resolver\<close>

text \<open>
  The argument \<open>table\<close> of the permission functions: the bundle or the worksheet
  permission table.
\<close>

datatype permission_table = BundlePermissions | WorksheetPermissions

fun permission_rows :: "db \<Rightarrow> permission_table \<Rightarrow> permission_row list" where
  "permission_rows d BundlePermissions = cl_group_bundle_permission d"
| "permission_rows d WorksheetPermissions = cl_group_worksheet_permission d"

text \<open>An entry \<^verbatim>\<open>{'group_uuid': ..., 'group_name': ..., 'permission': ...}\<close>.\<close>

record group_permission =
  gp_group_uuid :: string
  gp_group_name :: string
  gp_permission :: int

text \<open>
  \<open>batch_get_group_permissions\<close>: the permission rows of the objects joined with the rows
  of \<open>group\<close> of the same uuid, collected per object. The \<^verbatim>\<open>defaultdict\<close> is an association
  list in iteration order, each list in row order.
\<close>

definition joined_permissions ::
  "db \<Rightarrow> permission_table \<Rightarrow> string list \<Rightarrow> (string \<times> group_permission) list" where
  "joined_permissions d tbl object_uuids =
     concat (map (\<lambda>p. map (\<lambda>g. (p_object_uuid p,
                                  \<lparr>gp_group_uuid = p_group_uuid p, gp_group_name = g_name g,
                                   gp_permission = p_permission p\<rparr>))
                          (filter (\<lambda>g. p_group_uuid p = g_uuid g) (cl_group d)))
                 (filter (\<lambda>p. p_object_uuid p \<in> set object_uuids) (permission_rows d tbl)))"

definition batch_get_group_permissions ::
  "ctx \<Rightarrow> db \<Rightarrow> permission_table \<Rightarrow> string list \<Rightarrow> (string \<times> group_permission list) list" where
  "batch_get_group_permissions cx d tbl object_uuids =
     (let rows = joined_permissions d tbl object_uuids
      in map (\<lambda>u. (u, map snd (filter (\<lambda>row. fst row = u) rows))) (dict_order cx (map fst rows)))"

text \<open>\<open>batch_get_user_in_group\<close>: the rows of \<open>user_group\<close> on which the clause is true.\<close>

definition batch_get_user_in_group ::
  "ctx \<Rightarrow> db \<Rightarrow> (string \<times> kwvalue) list \<Rightarrow> error + user_group_row list" where
  "batch_get_user_in_group cx d kwargs =
     (case make_kwargs_clause UserGroup kwargs of
        Inl err \<Rightarrow> Inl err
      | Inr clause \<Rightarrow>
          Inr (filter (\<lambda>r. eval_expr cx d (no_rows\<lparr>e_user_group := Some r\<rparr>) clause = Some True)
                      (cl_user_group d)))"

text \<open>\<open>_get_user_groups\<close>. A user id is \<open>None\<close> for the anonymous user.\<close>

definition get_user_groups :: "ctx \<Rightarrow> db \<Rightarrow> string option \<Rightarrow> error + string list" where
  "get_user_groups cx d user_id =
     (let groups = [public_group_uuid cx]
      in case user_id of
           None \<Rightarrow> Inr groups
         | Some u \<Rightarrow>
             (case batch_get_user_in_group cx d [(''user_id'', KValue (VStr u))] of
                Inl err \<Rightarrow> Inl err
              | Inr rows \<Rightarrow> Inr (groups @ map ug_group_uuid rows)))"

text \<open>
  \<^verbatim>\<open>owner_ids.get(object_uuid)\<close>: \<open>None\<close> when the object is missing from the map and when
  its owner is \<^verbatim>\<open>None\<close>.
\<close>

definition owner_get :: "(string \<rightharpoonup> string option) \<Rightarrow> string \<Rightarrow> string option" where
  "owner_get owner_ids object_uuid = (case owner_ids object_uuid of None \<Rightarrow> None | Some owner \<Rightarrow> owner)"

text \<open>The body of the first loop of \<open>get_user_permissions\<close>.\<close>

fun classify ::
  "ctx \<Rightarrow> string option \<Rightarrow> (string \<rightharpoonup> string option) \<Rightarrow> string
     \<Rightarrow> (string \<rightharpoonup> int) \<times> string list \<Rightarrow> (string \<rightharpoonup> int) \<times> string list" where
  "classify cx user_id owner_ids object_uuid (object_permissions, remaining_object_uuids) =
     (let owner_id = owner_get owner_ids object_uuid
      in if user_id = owner_id \<or> user_id = root_user_id cx
         then (object_permissions(object_uuid \<mapsto> GROUP_OBJECT_PERMISSION_ALL), remaining_object_uuids)
         else (object_permissions, remaining_object_uuids @ [object_uuid]))"

text \<open>The body of the innermost loop: a read of a missing key would raise.\<close>

definition raise_permission ::
  "string list \<Rightarrow> string \<Rightarrow> group_permission \<Rightarrow> (string \<rightharpoonup> int) \<Rightarrow> error + (string \<rightharpoonup> int)" where
  "raise_permission user_groups object_uuid row object_permissions =
     (if gp_group_uuid row \<in> set user_groups then
        (case object_permissions object_uuid of
           None \<Rightarrow> Inl KeyError
         | Some p \<Rightarrow> Inr (object_permissions(object_uuid \<mapsto> max p (gp_permission row))))
      else Inr object_permissions)"

definition get_user_permissions ::
  "ctx \<Rightarrow> db \<Rightarrow> permission_table \<Rightarrow> string option \<Rightarrow> string list \<Rightarrow> (string \<rightharpoonup> string option)
     \<Rightarrow> error + (string \<rightharpoonup> int)" where
  "get_user_permissions cx d tbl user_id object_uuids owner_ids =
     (let initial = fold (\<lambda>object_uuid m. m(object_uuid \<mapsto> GROUP_OBJECT_PERMISSION_NONE))
                         object_uuids Map.empty
      in case fold (classify cx user_id owner_ids) object_uuids (initial, []) of
           (object_permissions, remaining_object_uuids) \<Rightarrow>
             if length remaining_object_uuids > 0 then
               (let result = batch_get_group_permissions cx d tbl remaining_object_uuids
                in case get_user_groups cx d user_id of
                     Inl err \<Rightarrow> Inl err
                   | Inr user_groups \<Rightarrow>
                       fold_err (\<lambda>(object_uuid, permissions) m.
                                   fold_err (raise_permission user_groups object_uuid) permissions m)
                                result object_permissions)
             else Inr object_permissions)"

text \<open>
  The resolver in the words of the spec. The group set of a principal is the public group
  and the groups of its membership rows; the level of an object is ALL for its owner and
  for the root principal, and otherwise the greatest of NONE and the levels of the
  permission rows of the object whose group is in the group set.
\<close>

definition group_set :: "ctx \<Rightarrow> db \<Rightarrow> string option \<Rightarrow> string set" where
  "group_set cx d user_id =
     insert (public_group_uuid cx)
       (ug_group_uuid ` {r \<in> set (cl_user_group d). Some (ug_user_id r) = user_id})"

definition claimed_level ::
  "ctx \<Rightarrow> db \<Rightarrow> permission_table \<Rightarrow> string option \<Rightarrow> (string \<rightharpoonup> string option) \<Rightarrow> string \<Rightarrow> int" where
  "claimed_level cx d tbl user_id owner_ids object_uuid =
     (if user_id = owner_get owner_ids object_uuid \<or> user_id = root_user_id cx
      then GROUP_OBJECT_PERMISSION_ALL
      else Max (insert GROUP_OBJECT_PERMISSION_NONE
                  (p_permission ` {p \<in> set (permission_rows d tbl).
                                     p_object_uuid p = object_uuid \<and> p_group_uuid p \<in> group_set cx d user_id})))"

text \<open>
  The same with the permission rows the source reads: those whose group is a row of the
  table of groups (\<open>batch_get_group_permissions\<close> joins the two tables).
\<close>

definition resolved_level ::
  "ctx \<Rightarrow> db \<Rightarrow> permission_table \<Rightarrow> string option \<Rightarrow> (string \<rightharpoonup> string option) \<Rightarrow> string \<Rightarrow> int" where
  "resolved_level cx d tbl user_id owner_ids object_uuid =
     (if user_id = owner_get owner_ids object_uuid \<or> user_id = root_user_id cx
      then GROUP_OBJECT_PERMISSION_ALL
      else Max (insert GROUP_OBJECT_PERMISSION_NONE
                  (p_permission ` {p \<in> set (permission_rows d tbl).
                                     p_object_uuid p = object_uuid \<and> p_group_uuid p \<in> group_set cx d user_id \<and>
                                     p_group_uuid p \<in> g_uuid ` set (cl_group d)})))"

text \<open>
  Referential integrity of a permission table: the group of every row exists. Nothing in
  the source enforces it: \<open>add_permission\<close> and \<open>add_user_in_group\<close> insert what they are
  given.
\<close>

definition groups_exist :: "db \<Rightarrow> permission_table \<Rightarrow> bool" where
  "groups_exist d tbl \<longleftrightarrow> (\<forall>p \<in> set (permission_rows d tbl). p_group_uuid p \<in> g_uuid ` set (cl_group d))"

lemma fold_initial:
  "fold (\<lambda>u m. m(u \<mapsto> n)) us m0 = (\<lambda>x. if x \<in> set us then Some n else m0 x)"
proof (induction us arbitrary: m0)
  case Nil
  show ?case by simp
next
  case (Cons a us)
  have "fold (\<lambda>u m. m(u \<mapsto> n)) (a # us) m0 = fold (\<lambda>u m. m(u \<mapsto> n)) us (m0(a \<mapsto> n))" by simp
  also have "\<dots> = (\<lambda>x. if x \<in> set us then Some n else (m0(a \<mapsto> n)) x)" by (rule Cons.IH)
  also have "\<dots> = (\<lambda>x. if x \<in> set (a # us) then Some n else m0 x)" by (rule ext) simp
  finally show ?case .
qed

definition owns :: "ctx \<Rightarrow> string option \<Rightarrow> (string \<rightharpoonup> string option) \<Rightarrow> string \<Rightarrow> bool" where
  "owns cx user_id owner_ids u \<longleftrightarrow> user_id = owner_get owner_ids u \<or> user_id = root_user_id cx"

lemma fold_classify:
  "fold (classify cx user_id owner_ids) us (m, rem) =
     ((\<lambda>x. if x \<in> set us \<and> owns cx user_id owner_ids x then Some GROUP_OBJECT_PERMISSION_ALL else m x),
      rem @ filter (\<lambda>u. \<not> owns cx user_id owner_ids u) us)"
proof (induction us arbitrary: m rem)
  case Nil
  show ?case by simp
next
  case (Cons a us)
  let ?ALL = GROUP_OBJECT_PERMISSION_ALL
  show ?case
  proof (cases "owns cx user_id owner_ids a")
    case True
    then have c: "classify cx user_id owner_ids a (m, rem) = (m(a \<mapsto> ?ALL), rem)"
      by (simp add: owns_def Let_def)
    have e: "(\<lambda>x. if x \<in> set us \<and> owns cx user_id owner_ids x then Some ?ALL else (m(a \<mapsto> ?ALL)) x)
        = (\<lambda>x. if x \<in> set (a # us) \<and> owns cx user_id owner_ids x then Some ?ALL else m x)"
      using True by (intro ext) simp
    have "fold (classify cx user_id owner_ids) (a # us) (m, rem) =
        fold (classify cx user_id owner_ids) us (m(a \<mapsto> ?ALL), rem)"
      by (simp only: fold_simps c)
    also have "\<dots> = ((\<lambda>x. if x \<in> set us \<and> owns cx user_id owner_ids x then Some ?ALL else (m(a \<mapsto> ?ALL)) x),
        rem @ filter (\<lambda>u. \<not> owns cx user_id owner_ids u) us)"
      by (rule Cons.IH)
    finally show ?thesis using True by (simp only: e filter.simps if_not_P not_not)
  next
    case False
    then have c: "classify cx user_id owner_ids a (m, rem) = (m, rem @ [a])"
      by (simp add: owns_def Let_def)
    have e: "(\<lambda>x. if x \<in> set us \<and> owns cx user_id owner_ids x then Some ?ALL else m x)
        = (\<lambda>x. if x \<in> set (a # us) \<and> owns cx user_id owner_ids x then Some ?ALL else m x)"
      using False by (intro ext) auto
    have "fold (classify cx user_id owner_ids) (a # us) (m, rem) =
        fold (classify cx user_id owner_ids) us (m, rem @ [a])"
      by (simp only: fold_simps c)
    also have "\<dots> = ((\<lambda>x. if x \<in> set us \<and> owns cx user_id owner_ids x then Some ?ALL else m x),
        (rem @ [a]) @ filter (\<lambda>u. \<not> owns cx user_id owner_ids u) us)"
      by (rule Cons.IH)
    finally show ?thesis using False by (simp add: e)
  qed
qed

lemma user_id_clause:
  "make_kwargs_clause UserGroup [(''user_id'', KValue (VStr u))] = Inr (AndC TrueC (EqLit U_user_id (VStr u)))"
  by (simp add: make_kwargs_clause_def table_column_def column_names_def col_eq_def)

lemma get_user_groups_set:
  "\<exists>gs. get_user_groups cx d user_id = Inr gs \<and> set gs = group_set cx d user_id"
proof (cases user_id)
  case None
  then show ?thesis by (simp add: get_user_groups_def group_set_def)
next
  case (Some u)
  have "batch_get_user_in_group cx d [(''user_id'', KValue (VStr u))] =
      Inr (filter (\<lambda>r. ug_user_id r = u) (cl_user_group d))"
    by (simp add: batch_get_user_in_group_def user_id_clause no_rows_def of_row_def and3_True_iff)
  with Some show ?thesis by (auto simp: get_user_groups_def group_set_def)
qed

definition level :: "string list \<Rightarrow> group_permission list \<Rightarrow> int \<Rightarrow> int" where
  "level gs rows p = fold (\<lambda>row p. if gp_group_uuid row \<in> set gs then max p (gp_permission row) else p) rows p"

lemma fold_raise:
  "m u = Some p \<Longrightarrow> fold_err (raise_permission gs u) rows m = Inr (m(u \<mapsto> level gs rows p))"
proof (induction rows arbitrary: m p)
  case Nil
  have "m(u \<mapsto> p) = m" using Nil by (rule fun_upd_idem)
  then show ?case by (simp add: level_def)
next
  case (Cons r rows)
  show ?case
  proof (cases "gp_group_uuid r \<in> set gs")
    case True
    let ?x = "max p (gp_permission r)"
    have s: "raise_permission gs u r m = Inr (m(u \<mapsto> ?x))"
      using True Cons.prems by (simp add: raise_permission_def)
    have ih: "fold_err (raise_permission gs u) rows (m(u \<mapsto> ?x)) =
        Inr ((m(u \<mapsto> ?x))(u \<mapsto> level gs rows ?x))"
    proof -
      have pre: "(m(u \<mapsto> ?x)) u = Some ?x" by simp
      show ?thesis by (rule Cons.IH[of "m(u \<mapsto> ?x)" ?x, OF pre])
    qed
    have l: "level gs (r # rows) p = level gs rows ?x" using True by (simp add: level_def)
    have "fold_err (raise_permission gs u) (r # rows) m = fold_err (raise_permission gs u) rows (m(u \<mapsto> ?x))"
      by (simp only: fold_err.simps s sum.case)
    also have "\<dots> = Inr (m(u \<mapsto> level gs rows ?x))" by (simp only: ih fun_upd_upd)
    finally show ?thesis by (simp only: l)
  next
    case False
    have s: "raise_permission gs u r m = Inr m" using False by (simp add: raise_permission_def)
    have l: "level gs (r # rows) p = level gs rows p" using False by (simp add: level_def)
    have "fold_err (raise_permission gs u) (r # rows) m = fold_err (raise_permission gs u) rows m"
      by (simp only: fold_err.simps s sum.case)
    also have "\<dots> = Inr (m(u \<mapsto> level gs rows p))" using Cons.IH[of m p] Cons.prems by blast
    finally show ?thesis by (simp only: l)
  qed
qed

lemma Max_insert_max:
  "finite S \<Longrightarrow> Max (insert (max a b) S) = Max (insert a (insert b S))"
  by (cases "S = {}") (auto simp: max.assoc)

lemma Max_insert_Max:
  "finite S \<Longrightarrow> finite T \<Longrightarrow> Max (insert (Max (insert p T)) S) = Max (insert p (T \<union> S))"
proof (cases "S = {}")
  case True
  then show ?thesis by simp
next
  case False
  assume f: "finite S" "finite T"
  have "Max (insert p (T \<union> S)) = Max (insert p T \<union> S)" by simp
  also have "\<dots> = max (Max (insert p T)) (Max S)"
    using f False by (intro Max_Un) auto
  also have "\<dots> = Max (insert (Max (insert p T)) S)"
    using f False by simp
  finally show ?thesis by simp
qed

lemma level_Max:
  "level gs rows p = Max (insert p (gp_permission ` {r \<in> set rows. gp_group_uuid r \<in> set gs}))"
proof (induction rows arbitrary: p)
  case Nil
  then show ?case by (simp add: level_def)
next
  case (Cons r rows)
  let ?S = "gp_permission ` {x \<in> set rows. gp_group_uuid x \<in> set gs}"
  have fin: "finite ?S" by simp
  show ?case
  proof (cases "gp_group_uuid r \<in> set gs")
    case True
    then have "level gs (r # rows) p = level gs rows (max p (gp_permission r))" by (simp add: level_def)
    also have "\<dots> = Max (insert (max p (gp_permission r)) ?S)" by (rule Cons.IH)
    also have "\<dots> = Max (insert p (insert (gp_permission r) ?S))" by (rule Max_insert_max[OF fin])
    also have "insert (gp_permission r) ?S = gp_permission ` {x \<in> set (r # rows). gp_group_uuid x \<in> set gs}"
      using True by auto
    finally show ?thesis .
  next
    case False
    then have "level gs (r # rows) p = level gs rows p" by (simp add: level_def)
    also have "\<dots> = Max (insert p ?S)" by (rule Cons.IH)
    also have "?S = gp_permission ` {x \<in> set (r # rows). gp_group_uuid x \<in> set gs}"
      using False by auto
    finally show ?thesis .
  qed
qed

definition total_level :: "string list \<Rightarrow> (string \<times> group_permission list) list \<Rightarrow> string \<Rightarrow> int \<Rightarrow> int" where
  "total_level gs result x p = fold (\<lambda>(u, es) p. if u = x then level gs es p else p) result p"

lemma fold_result:
  "\<forall>a \<in> set result. snd a \<noteq> [] \<longrightarrow> fst a \<in> dom m \<Longrightarrow>
   \<exists>m'. fold_err (\<lambda>(u, es) m. fold_err (raise_permission gs u) es m) result m = Inr m'
       \<and> (\<forall>x. m' x = map_option (total_level gs result x) (m x))"
proof (induction result arbitrary: m)
  case Nil
  then show ?case by (simp add: total_level_def option.map_ident)
next
  case (Cons a result)
  obtain u es where a: "a = (u, es)" by (cases a)
  show ?case
  proof (cases "es = []")
    case True
    from Cons.prems have "\<forall>a \<in> set result. snd a \<noteq> [] \<longrightarrow> fst a \<in> dom m" by simp
    from Cons.IH[OF this] obtain m' where
      m': "fold_err (\<lambda>(u, es) m. fold_err (raise_permission gs u) es m) result m = Inr m'"
          "\<forall>x. m' x = map_option (total_level gs result x) (m x)" by blast
    have "total_level gs (a # result) x = total_level gs result x" for x
      using a True by (simp add: total_level_def level_def fun_eq_iff)
    with m' a True show ?thesis by simp
  next
    case False
    with Cons.prems a obtain p where p: "m u = Some p" by auto
    let ?m1 = "m(u \<mapsto> level gs es p)"
    have s: "fold_err (raise_permission gs u) es m = Inr ?m1" using fold_raise[of m u p gs es] p by simp
    have "\<forall>a \<in> set result. snd a \<noteq> [] \<longrightarrow> fst a \<in> dom ?m1" using Cons.prems by auto
    from Cons.IH[OF this] obtain m' where
      m': "fold_err (\<lambda>(u, es) m. fold_err (raise_permission gs u) es m) result ?m1 = Inr m'"
          "\<forall>x. m' x = map_option (total_level gs result x) (?m1 x)" by blast
    have "m' x = map_option (total_level gs (a # result) x) (m x)" for x
      using m'(2) a p by (cases "m x") (auto simp: total_level_def)
    with m'(1) s a show ?thesis by simp
  qed
qed

lemma total_level_Max:
  "total_level gs result x p =
     Max (insert p (gp_permission ` {e. \<exists>es. (x, es) \<in> set result \<and> e \<in> set es \<and> gp_group_uuid e \<in> set gs}))"
proof (induction result arbitrary: p)
  case Nil
  then show ?case by (simp add: total_level_def)
next
  case (Cons a result)
  obtain u es where a: "a = (u, es)" by (cases a)
  let ?S = "gp_permission ` {e. \<exists>es. (x, es) \<in> set result \<and> e \<in> set es \<and> gp_group_uuid e \<in> set gs}"
  let ?T = "gp_permission ` {r \<in> set es. gp_group_uuid r \<in> set gs}"
  have "{e. \<exists>es. (x, es) \<in> set result \<and> e \<in> set es \<and> gp_group_uuid e \<in> set gs}
      \<subseteq> (\<Union>es \<in> snd ` set result. set es)" by force
  then have "finite {e. \<exists>es. (x, es) \<in> set result \<and> e \<in> set es \<and> gp_group_uuid e \<in> set gs}"
    by (rule finite_subset) simp
  then have fin: "finite ?S" by simp
  have finT: "finite ?T" by simp
  show ?case
  proof (cases "u = x")
    case True
    have "total_level gs (a # result) x p = total_level gs result x (level gs es p)"
      using a True by (simp add: total_level_def)
    also have "\<dots> = Max (insert (level gs es p) ?S)" by (rule Cons.IH)
    also have "level gs es p = Max (insert p ?T)" by (rule level_Max)
    also have "Max (insert (Max (insert p ?T)) ?S) = Max (insert p (?T \<union> ?S))"
      by (rule Max_insert_Max[OF fin finT])
    also have "?T \<union> ?S = gp_permission ` {e. \<exists>es. (x, es) \<in> set (a # result) \<and> e \<in> set es \<and> gp_group_uuid e \<in> set gs}"
      using a True by auto
    finally show ?thesis .
  next
    case False
    have "total_level gs (a # result) x p = total_level gs result x p"
      using a False by (simp add: total_level_def)
    also have "\<dots> = Max (insert p ?S)" by (rule Cons.IH)
    also have "?S = gp_permission ` {e. \<exists>es. (x, es) \<in> set (a # result) \<and> e \<in> set es \<and> gp_group_uuid e \<in> set gs}"
      using a False by auto
    finally show ?thesis .
  qed
qed

lemma result_entries:
  assumes "dict_order_ok cx"
  shows "{e. \<exists>es. (x, es) \<in> set (batch_get_group_permissions cx d tbl us) \<and> e \<in> set es \<and> P e}
       = {e. (x, e) \<in> set (joined_permissions d tbl us) \<and> P e}"
proof -
  let ?rows = "joined_permissions d tbl us"
  have keys: "set (dict_order cx (map fst ?rows)) = fst ` set ?rows"
    using assms by (simp add: dict_order_ok_def)
  have A: "(x, es) \<in> set (batch_get_group_permissions cx d tbl us) \<longleftrightarrow>
      x \<in> fst ` set ?rows \<and> es = map snd (filter (\<lambda>row. fst row = x) ?rows)" for es
    unfolding batch_get_group_permissions_def Let_def set_map keys by auto
  have B: "e \<in> set (map snd (filter (\<lambda>row. fst row = x) ?rows)) \<longleftrightarrow> (x, e) \<in> set ?rows" for e
    by force
  have C: "(x, e) \<in> set ?rows \<Longrightarrow> x \<in> fst ` set ?rows" for e
    by force
  show ?thesis
  proof (intro set_eqI iffI)
    fix e
    assume "e \<in> {e. \<exists>es. (x, es) \<in> set (batch_get_group_permissions cx d tbl us) \<and> e \<in> set es \<and> P e}"
    then obtain es where "(x, es) \<in> set (batch_get_group_permissions cx d tbl us)" "e \<in> set es" "P e"
      by blast
    with A[of es] B[of e] show "e \<in> {e. (x, e) \<in> set ?rows \<and> P e}" by simp
  next
    fix e
    assume "e \<in> {e. (x, e) \<in> set ?rows \<and> P e}"
    then have e: "(x, e) \<in> set ?rows" "P e" by simp_all
    let ?es = "map snd (filter (\<lambda>row. fst row = x) ?rows)"
    have "(x, ?es) \<in> set (batch_get_group_permissions cx d tbl us)" using A[of ?es] C[OF e(1)] by simp
    moreover have "e \<in> set ?es" using B[of e] e(1) by simp
    ultimately show "e \<in> {e. \<exists>es. (x, es) \<in> set (batch_get_group_permissions cx d tbl us) \<and> e \<in> set es \<and> P e}"
      using e(2) by blast
  qed
qed

lemma joined_keys: "fst ` set (joined_permissions d tbl us) \<subseteq> set us"
  by (auto simp: joined_permissions_def)

lemma joined_levels:
  "gp_permission ` {e. (x, e) \<in> set (joined_permissions d tbl us) \<and> gp_group_uuid e \<in> G}
     = p_permission ` {p \<in> set (permission_rows d tbl).
                         p_object_uuid p = x \<and> x \<in> set us \<and> p_group_uuid p \<in> G \<and>
                         p_group_uuid p \<in> g_uuid ` set (cl_group d)}"
proof (intro set_eqI iffI)
  fix n
  assume "n \<in> gp_permission ` {e. (x, e) \<in> set (joined_permissions d tbl us) \<and> gp_group_uuid e \<in> G}"
  then obtain e where e: "(x, e) \<in> set (joined_permissions d tbl us)" "gp_group_uuid e \<in> G"
    "n = gp_permission e" by auto
  from e(1) obtain p g where pg: "p \<in> set (permission_rows d tbl)" "p_object_uuid p \<in> set us"
    "g \<in> set (cl_group d)" "p_group_uuid p = g_uuid g" "x = p_object_uuid p"
    "e = \<lparr>gp_group_uuid = p_group_uuid p, gp_group_name = g_name g, gp_permission = p_permission p\<rparr>"
    by (auto simp: joined_permissions_def)
  from pg e(2,3) have "p \<in> {p \<in> set (permission_rows d tbl).
      p_object_uuid p = x \<and> x \<in> set us \<and> p_group_uuid p \<in> G \<and> p_group_uuid p \<in> g_uuid ` set (cl_group d)}"
    and "n = p_permission p" by auto
  then show "n \<in> p_permission ` {p \<in> set (permission_rows d tbl).
      p_object_uuid p = x \<and> x \<in> set us \<and> p_group_uuid p \<in> G \<and> p_group_uuid p \<in> g_uuid ` set (cl_group d)}"
    by (rule image_eqI[rotated])
next
  fix n
  assume "n \<in> p_permission ` {p \<in> set (permission_rows d tbl).
      p_object_uuid p = x \<and> x \<in> set us \<and> p_group_uuid p \<in> G \<and> p_group_uuid p \<in> g_uuid ` set (cl_group d)}"
  then obtain p where p: "p \<in> set (permission_rows d tbl)" "p_object_uuid p = x" "x \<in> set us"
    "p_group_uuid p \<in> G" "p_group_uuid p \<in> g_uuid ` set (cl_group d)" "n = p_permission p" by auto
  from p(5) obtain g where g: "g \<in> set (cl_group d)" "g_uuid g = p_group_uuid p" by auto
  let ?e = "\<lparr>gp_group_uuid = p_group_uuid p, gp_group_name = g_name g, gp_permission = p_permission p\<rparr>"
  have "(x, ?e) \<in> set (joined_permissions d tbl us)"
  proof -
    have 1: "p \<in> set (filter (\<lambda>p. p_object_uuid p \<in> set us) (permission_rows d tbl))"
      using p by simp
    have 2: "g \<in> set (filter (\<lambda>g. p_group_uuid p = g_uuid g) (cl_group d))"
      using g by simp
    have 3: "(x, ?e) \<in> set (map (\<lambda>g. (p_object_uuid p,
                 \<lparr>gp_group_uuid = p_group_uuid p, gp_group_name = g_name g,
                  gp_permission = p_permission p\<rparr>))
               (filter (\<lambda>g. p_group_uuid p = g_uuid g) (cl_group d)))"
      unfolding set_map using p(2) by (intro image_eqI[OF _ 2]) simp
    show ?thesis
      unfolding joined_permissions_def set_concat set_map
      using 1 3 by blast
  qed
  moreover have "gp_group_uuid ?e \<in> G" "gp_permission ?e = n" using p by simp_all
  ultimately show "n \<in> gp_permission ` {e. (x, e) \<in> set (joined_permissions d tbl us) \<and> gp_group_uuid e \<in> G}"
    by (intro image_eqI[where x = "?e"]) simp_all
qed

lemma result_entry_joined:
  "(x, es) \<in> set (batch_get_group_permissions cx d tbl us) \<Longrightarrow> e \<in> set es \<Longrightarrow>
     (x, e) \<in> set (joined_permissions d tbl us)"
  by (auto simp: batch_get_group_permissions_def Let_def)

lemma total_level_outside:
  assumes "x \<notin> set us"
  shows "total_level gs (batch_get_group_permissions cx d tbl us) x p = p"
proof -
  have "{e. \<exists>es. (x, es) \<in> set (batch_get_group_permissions cx d tbl us) \<and> e \<in> set es \<and> gp_group_uuid e \<in> set gs} = {}"
    using result_entry_joined[of x _ cx d tbl us] joined_keys[of d tbl us] assms by force
  then show ?thesis unfolding total_level_Max by (simp only: image_empty Max_singleton)
qed

lemma get_user_permissions_result:
  "\<exists>gs. set gs = group_set cx d user_id \<and>
     get_user_permissions cx d tbl user_id us owner_ids =
       Inr (\<lambda>x. if x \<in> set us
                then Some (total_level gs
                             (batch_get_group_permissions cx d tbl (filter (\<lambda>u. \<not> owns cx user_id owner_ids u) us))
                             x
                             (if owns cx user_id owner_ids x then GROUP_OBJECT_PERMISSION_ALL
                              else GROUP_OBJECT_PERMISSION_NONE))
                else None)"
proof -
  let ?ALL = GROUP_OBJECT_PERMISSION_ALL and ?NONE = GROUP_OBJECT_PERMISSION_NONE
  let ?rem = "filter (\<lambda>u. \<not> owns cx user_id owner_ids u) us"
  let ?result = "batch_get_group_permissions cx d tbl ?rem"
  let ?op = "\<lambda>x. if x \<in> set us \<and> owns cx user_id owner_ids x then Some ?ALL
                   else if x \<in> set us then Some ?NONE else None"
  obtain gs where gs: "get_user_groups cx d user_id = Inr gs" "set gs = group_set cx d user_id"
    using get_user_groups_set by blast
  let ?target = "\<lambda>x. if x \<in> set us
                then Some (total_level gs ?result x (if owns cx user_id owner_ids x then ?ALL else ?NONE))
                else None"
  have init: "fold (\<lambda>object_uuid m. m(object_uuid \<mapsto> ?NONE)) us Map.empty =
      (\<lambda>x. if x \<in> set us then Some ?NONE else None)"
    by (simp only: fold_initial empty_iff)
  have cl: "fold (classify cx user_id owner_ids) us ((\<lambda>x. if x \<in> set us then Some ?NONE else None), []) = (?op, ?rem)"
    by (simp only: fold_classify append_Nil)
  have unf: "get_user_permissions cx d tbl user_id us owner_ids =
      (if length ?rem > 0 then
         fold_err (\<lambda>(object_uuid, permissions) m. fold_err (raise_permission gs object_uuid) permissions m)
           ?result ?op
       else Inr ?op)"
    unfolding get_user_permissions_def Let_def init cl using gs(1) by simp
  have tgt: "map_option (total_level gs ?result x) (?op x) = ?target x" for x
    by simp
  have "get_user_permissions cx d tbl user_id us owner_ids = Inr ?target"
  proof (cases "?rem = []")
    case True
    have "?op x = ?target x" for x
    proof (cases "x \<in> set us")
      case False
      then show ?thesis by simp
    next
      case xin: True
      with True have o: "owns cx user_id owner_ids x" by (auto simp: filter_empty_conv)
      have "x \<notin> set ?rem" using True by simp
      from total_level_outside[OF this] o xin show ?thesis by simp
    qed
    then have "?op = ?target" by (intro ext)
    with unf True show ?thesis by simp
  next
    case False
    have keys: "\<forall>a \<in> set ?result. snd a \<noteq> [] \<longrightarrow> fst a \<in> dom ?op"
    proof (intro ballI impI)
      fix a assume a: "a \<in> set ?result" "snd a \<noteq> []"
      then obtain e where "e \<in> set (snd a)" by (cases "snd a") auto
      with a(1) have "(fst a, e) \<in> set (joined_permissions d tbl ?rem)"
        using result_entry_joined[of "fst a" "snd a" cx d tbl ?rem e] by simp
      then have "fst a \<in> set ?rem" using joined_keys[of d tbl ?rem] by force
      then show "fst a \<in> dom ?op" by (auto simp: dom_def)
    qed
    from fold_result[OF keys, of gs] obtain m' where
      m': "fold_err (\<lambda>(u, es) m. fold_err (raise_permission gs u) es m) ?result ?op = Inr m'"
          "\<forall>x. m' x = map_option (total_level gs ?result x) (?op x)" by blast
    have "m' x = ?target x" for x using m'(2) tgt[of x] by simp
    then have "m' = ?target" by (intro ext)
    with unf False m'(1) show ?thesis by simp
  qed
  with gs(2) show ?thesis by blast
qed

text \<open>
  Claim C2, as amended. For every principal, anonymous included, every list of objects and
  every owner map, \<open>get_user_permissions\<close> returns a map on exactly the objects asked for,
  which gives ALL to every object whose recorded owner is the principal and to every
  object when the principal is the root principal, and to every other object the greatest
  of NONE and the levels of the permission rows of the object whose group is in the group
  set of the principal (the public group and the groups of its memberships) and is a row
  of the table of groups.
\<close>

theorem get_user_permissions_resolves:
  assumes "dict_order_ok cx"
  shows "\<exists>m. get_user_permissions cx d tbl user_id object_uuids owner_ids = Inr m
           \<and> dom m = set object_uuids
           \<and> (\<forall>u \<in> set object_uuids. m u = Some (resolved_level cx d tbl user_id owner_ids u))"
proof -
  let ?ALL = GROUP_OBJECT_PERMISSION_ALL and ?NONE = GROUP_OBJECT_PERMISSION_NONE
  let ?rem = "filter (\<lambda>u. \<not> owns cx user_id owner_ids u) object_uuids"
  let ?result = "batch_get_group_permissions cx d tbl ?rem"
  from get_user_permissions_result[of cx d user_id tbl object_uuids owner_ids]
  obtain gs where gs: "set gs = group_set cx d user_id"
    and run: "get_user_permissions cx d tbl user_id object_uuids owner_ids =
       Inr (\<lambda>x. if x \<in> set object_uuids
                then Some (total_level gs ?result x (if owns cx user_id owner_ids x then ?ALL else ?NONE))
                else None)"
    by blast
  let ?m = "\<lambda>x. if x \<in> set object_uuids
                then Some (total_level gs ?result x (if owns cx user_id owner_ids x then ?ALL else ?NONE))
                else None"
  have d: "dom ?m = set object_uuids" by (auto simp: dom_def)
  have "?m u = Some (resolved_level cx d tbl user_id owner_ids u)" if u: "u \<in> set object_uuids" for u
  proof (cases "owns cx user_id owner_ids u")
    case True
    then have "u \<notin> set ?rem" by simp
    from total_level_outside[OF this] True u show ?thesis
      by (simp add: resolved_level_def owns_def)
  next
    case False
    with u have r: "u \<in> set ?rem" by simp
    have "total_level gs ?result u ?NONE =
        Max (insert ?NONE (gp_permission ` {e. \<exists>es. (u, es) \<in> set ?result \<and> e \<in> set es \<and> gp_group_uuid e \<in> set gs}))"
      by (rule total_level_Max)
    also have "{e. \<exists>es. (u, es) \<in> set ?result \<and> e \<in> set es \<and> gp_group_uuid e \<in> set gs}
        = {e. (u, e) \<in> set (joined_permissions d tbl ?rem) \<and> gp_group_uuid e \<in> set gs}"
      by (rule result_entries[OF assms])
    also have "gp_permission ` {e. (u, e) \<in> set (joined_permissions d tbl ?rem) \<and> gp_group_uuid e \<in> set gs}
        = p_permission ` {p \<in> set (permission_rows d tbl). p_object_uuid p = u \<and> u \<in> set ?rem \<and>
              p_group_uuid p \<in> set gs \<and> p_group_uuid p \<in> g_uuid ` set (cl_group d)}"
      by (rule joined_levels)
    also have "{p \<in> set (permission_rows d tbl). p_object_uuid p = u \<and> u \<in> set ?rem \<and>
              p_group_uuid p \<in> set gs \<and> p_group_uuid p \<in> g_uuid ` set (cl_group d)}
        = {p \<in> set (permission_rows d tbl). p_object_uuid p = u \<and> p_group_uuid p \<in> group_set cx d user_id \<and>
              p_group_uuid p \<in> g_uuid ` set (cl_group d)}"
      using r gs by blast
    finally have "total_level gs ?result u ?NONE = resolved_level cx d tbl user_id owner_ids u"
      using False by (simp add: resolved_level_def owns_def)
    with False u show ?thesis by simp
  qed
  with run d show ?thesis by blast
qed

text \<open>
  Where the permission table keeps its reference to the groups, the level is the one of
  the spec.
\<close>

lemma resolved_level_claimed:
  assumes "groups_exist d tbl"
  shows "resolved_level cx d tbl user_id owner_ids u = claimed_level cx d tbl user_id owner_ids u"
proof -
  have "{p \<in> set (permission_rows d tbl). p_object_uuid p = u \<and> p_group_uuid p \<in> group_set cx d user_id \<and>
              p_group_uuid p \<in> g_uuid ` set (cl_group d)}
      = {p \<in> set (permission_rows d tbl). p_object_uuid p = u \<and> p_group_uuid p \<in> group_set cx d user_id}"
    using assms unfolding groups_exist_def by blast
  then show ?thesis by (simp add: resolved_level_def claimed_level_def)
qed

text \<open>
  A database with a permission row and a membership row of a group \<open>ghost\<close> that has no
  row in the table of groups.
\<close>

definition db_perm :: db where
  "db_perm = db0\<lparr>
     cl_group := [\<lparr>g_uuid = ''public'', g_name = ''public'', g_owner_id = None, g_user_defined = False\<rparr>,
                  \<lparr>g_uuid = ''g1'', g_name = ''team'', g_owner_id = Some ''bob'', g_user_defined = True\<rparr>],
     cl_user_group := [\<lparr>ug_group_uuid = ''g1'', ug_user_id = ''alice'', ug_is_admin = False\<rparr>,
                       \<lparr>ug_group_uuid = ''ghost'', ug_user_id = ''alice'', ug_is_admin = False\<rparr>],
     cl_group_bundle_permission :=
       [\<lparr>p_group_uuid = ''public'', p_object_uuid = ''x'', p_permission = 1\<rparr>,
        \<lparr>p_group_uuid = ''g1'', p_object_uuid = ''x'', p_permission = 2\<rparr>,
        \<lparr>p_group_uuid = ''g1'', p_object_uuid = ''y'', p_permission = 1\<rparr>,
        \<lparr>p_group_uuid = ''ghost'', p_object_uuid = ''y'', p_permission = 2\<rparr>,
        \<lparr>p_group_uuid = ''public'', p_object_uuid = ''w'', p_permission = 1\<rparr>]\<rparr>"

definition owners0 :: "string \<rightharpoonup> string option" where
  "owners0 = [''x'' \<mapsto> Some ''bob'', ''y'' \<mapsto> Some ''bob'', ''z'' \<mapsto> Some ''alice'', ''w'' \<mapsto> None]"

lemma set_filter_Collect: "{x \<in> set xs. P x} = set (filter P xs)"
  by simp

lemma alice_group_set: "group_set cx0 db_perm (Some ''alice'') = {''public'', ''g1'', ''ghost''}"
  unfolding group_set_def set_filter_Collect by (auto simp: cx0_def db_perm_def db0_def)

lemma alice_levels:
  "resolved_level cx0 db_perm BundlePermissions (Some ''alice'') owners0 ''x'' = 2"
  "resolved_level cx0 db_perm BundlePermissions (Some ''alice'') owners0 ''y'' = 1"
  "resolved_level cx0 db_perm BundlePermissions (Some ''alice'') owners0 ''z'' = 2"
  "resolved_level cx0 db_perm BundlePermissions (Some ''alice'') owners0 ''v'' = 0"
  unfolding resolved_level_def alice_group_set set_filter_Collect
  by (simp_all add: owners0_def owner_get_def cx0_def db_perm_def db0_def
      GROUP_OBJECT_PERMISSION_ALL_def GROUP_OBJECT_PERMISSION_NONE_def)

theorem get_user_permissions_resolves_witness:
  "dict_order_ok cx0
   \<and> (\<exists>m. get_user_permissions cx0 db_perm BundlePermissions (Some ''alice'') [''x'', ''y'', ''z'', ''v''] owners0 = Inr m
          \<and> dom m = {''x'', ''y'', ''z'', ''v''}
          \<and> m ''x'' = Some 2 \<and> m ''y'' = Some 1 \<and> m ''z'' = Some 2 \<and> m ''v'' = Some 0)"
proof -
  from get_user_permissions_resolves[OF cx0_dict_order_ok,
      of db_perm BundlePermissions "Some ''alice''" "[''x'', ''y'', ''z'', ''v'']" owners0]
  obtain m where m: "get_user_permissions cx0 db_perm BundlePermissions (Some ''alice'') [''x'', ''y'', ''z'', ''v''] owners0 = Inr m"
    "dom m = set [''x'', ''y'', ''z'', ''v'']"
    "\<forall>u \<in> set [''x'', ''y'', ''z'', ''v'']. m u = Some (resolved_level cx0 db_perm BundlePermissions (Some ''alice'') owners0 u)"
    by blast
  from m(3) have "m ''x'' = Some 2" "m ''y'' = Some 1" "m ''z'' = Some 2" "m ''v'' = Some 0"
    by (simp_all add: alice_levels)
  with m(1,2) cx0_dict_order_ok show ?thesis by auto
qed

text \<open>
  Claim C2 as stated fails: the principal is a member of \<open>ghost\<close>, a permission row gives
  \<open>ghost\<close> the level ALL on \<open>y\<close>, and \<open>get_user_permissions\<close> resolves \<open>y\<close> to READ, the
  level of the other group, since the join drops the row of the group that has no row of
  its own.
\<close>

theorem get_user_permissions_ghost_counterexample:
  "''ghost'' \<in> group_set cx0 db_perm (Some ''alice'')
   \<and> \<lparr>p_group_uuid = ''ghost'', p_object_uuid = ''y'', p_permission = 2\<rparr>
        \<in> set (permission_rows db_perm BundlePermissions)
   \<and> claimed_level cx0 db_perm BundlePermissions (Some ''alice'') owners0 ''y'' = 2
   \<and> (\<exists>m. get_user_permissions cx0 db_perm BundlePermissions (Some ''alice'') [''y''] owners0 = Inr m
          \<and> m ''y'' = Some 1)"
proof -
  have c: "claimed_level cx0 db_perm BundlePermissions (Some ''alice'') owners0 ''y'' = 2"
    unfolding claimed_level_def alice_group_set set_filter_Collect
    by (simp add: owners0_def owner_get_def cx0_def db_perm_def db0_def
        GROUP_OBJECT_PERMISSION_ALL_def GROUP_OBJECT_PERMISSION_NONE_def)
  have r: "\<lparr>p_group_uuid = ''ghost'', p_object_uuid = ''y'', p_permission = 2\<rparr>
        \<in> set (permission_rows db_perm BundlePermissions)"
    by (simp add: db_perm_def db0_def)
  have o: "\<not> owns cx0 (Some ''alice'') owners0 ''y''"
    by (simp add: owns_def owners0_def owner_get_def cx0_def)
  have rem: "filter (\<lambda>u. \<not> owns cx0 (Some ''alice'') owners0 u) [''y''] = [''y'']"
    using o by simp
  have res: "batch_get_group_permissions cx0 db_perm BundlePermissions [''y''] =
      [(''y'', [\<lparr>gp_group_uuid = ''g1'', gp_group_name = ''team'', gp_permission = 1\<rparr>])]"
    by (simp add: batch_get_group_permissions_def joined_permissions_def cx0_def db_perm_def db0_def)
  from get_user_permissions_result[of cx0 db_perm "Some ''alice''" BundlePermissions "[''y'']" owners0]
  obtain gs where gs: "set gs = group_set cx0 db_perm (Some ''alice'')"
    and run: "get_user_permissions cx0 db_perm BundlePermissions (Some ''alice'') [''y''] owners0 =
       Inr (\<lambda>x. if x \<in> set [''y'']
                then Some (total_level gs
                             (batch_get_group_permissions cx0 db_perm BundlePermissions
                                (filter (\<lambda>u. \<not> owns cx0 (Some ''alice'') owners0 u) [''y'']))
                             x
                             (if owns cx0 (Some ''alice'') owners0 x then GROUP_OBJECT_PERMISSION_ALL
                              else GROUP_OBJECT_PERMISSION_NONE))
                else None)"
    by blast
  have "''g1'' \<in> set gs" using gs by (simp add: alice_group_set)
  then have "total_level gs [(''y'', [\<lparr>gp_group_uuid = ''g1'', gp_group_name = ''team'', gp_permission = 1\<rparr>])]
      ''y'' GROUP_OBJECT_PERMISSION_NONE = 1"
    by (simp add: total_level_def level_def GROUP_OBJECT_PERMISSION_NONE_def)
  with run o have "\<exists>m. get_user_permissions cx0 db_perm BundlePermissions (Some ''alice'') [''y''] owners0 = Inr m
      \<and> m ''y'' = Some 1"
    by (simp add: rem res)
  with c r show ?thesis by (simp add: alice_group_set)
qed

text \<open>
  Claim C10. For the anonymous principal, every object asked for that is missing from the
  owner map, or whose recorded owner is null, resolves to ALL: the anonymous principal
  compares equal to the missing owner.
\<close>


theorem anonymous_owns_ownerless:
  assumes "object_uuid \<in> set object_uuids"
    and "owner_ids object_uuid = None \<or> owner_ids object_uuid = Some None"
  shows "\<exists>m. get_user_permissions cx d tbl None object_uuids owner_ids = Inr m
           \<and> m object_uuid = Some GROUP_OBJECT_PERMISSION_ALL"
proof -
  let ?rem = "filter (\<lambda>u. \<not> owns cx None owner_ids u) object_uuids"
  have o: "owns cx None owner_ids object_uuid"
    using assms(2) by (auto simp: owns_def owner_get_def)
  then have "object_uuid \<notin> set ?rem" by simp
  from total_level_outside[OF this]
  have t: "total_level gs (batch_get_group_permissions cx d tbl ?rem) object_uuid GROUP_OBJECT_PERMISSION_ALL
      = GROUP_OBJECT_PERMISSION_ALL" for gs .
  from get_user_permissions_result[of cx d None tbl object_uuids owner_ids] o assms(1) t
  show ?thesis by auto
qed

theorem anonymous_owns_ownerless_witness:
  "''w'' \<in> set [''x'', ''w'', ''u''] \<and> owners0 ''w'' = Some None \<and> owners0 ''u'' = None
   \<and> (\<exists>m. get_user_permissions cx0 db_perm BundlePermissions None [''x'', ''w'', ''u''] owners0 = Inr m
          \<and> m ''w'' = Some 2 \<and> m ''u'' = Some 2)"
proof -
  have w: "owners0 ''w'' = Some None" and u: "owners0 ''u'' = None" by (simp_all add: owners0_def)
  from anonymous_owns_ownerless[of "''w''" "[''x'', ''w'', ''u'']" owners0 cx0 db_perm BundlePermissions] w
  obtain m where m: "get_user_permissions cx0 db_perm BundlePermissions None [''x'', ''w'', ''u''] owners0 = Inr m"
    "m ''w'' = Some GROUP_OBJECT_PERMISSION_ALL" by auto
  from anonymous_owns_ownerless[of "''u''" "[''x'', ''w'', ''u'']" owners0 cx0 db_perm BundlePermissions] u m(1)
  have "m ''u'' = Some GROUP_OBJECT_PERMISSION_ALL" by auto
  with m w u show ?thesis by (auto simp: GROUP_OBJECT_PERMISSION_ALL_def)
qed

section \<open>Bundle search\<close>

text \<open>\<^verbatim>\<open>keyword.replace('.*', '%')\<close>: every occurrence, from the left.\<close>

fun replace_dot_star :: "string \<Rightarrow> string" where
  "replace_dot_star (c # c' # cs) =
     (if c = CHR ''.'' \<and> c' = CHR ''*'' then CHR ''%'' # replace_dot_star cs
      else c # replace_dot_star (c' # cs))"
| "replace_dot_star cs = cs"

text \<open>
  \<^verbatim>\<open>CONDITION_REGEX.match(keyword)\<close> for the pattern \<^verbatim>\<open>^([\.\w/]+)=(.*)$\<close>: the key is the
  longest prefix of dots, word characters and slashes, it is not empty and an equals sign
  follows it; the value is the rest, which holds no newline but possibly a last one, that
  the value then leaves out.
\<close>

definition word_char :: "char \<Rightarrow> bool" where
  "word_char c \<longleftrightarrow>
     c \<in> set ''abcdefghijklmnopqrstuvwxyzABCDEFGHIJKLMNOPQRSTUVWXYZ0123456789_''"

definition key_char :: "char \<Rightarrow> bool" where
  "key_char c \<longleftrightarrow> c = CHR ''.'' \<or> word_char c \<or> c = CHR ''/''"

definition condition_match :: "string \<Rightarrow> (string \<times> string) option" where
  "condition_match keyword =
     (let key = takeWhile key_char keyword;
          rest = dropWhile key_char keyword
      in case rest of
           [] \<Rightarrow> None
         | c # v \<Rightarrow>
             if key = [] \<or> c \<noteq> CHR ''='' then None
             else if CHR 0x0A \<notin> set v then Some (key, v)
             else if last v = CHR 0x0A \<and> CHR 0x0A \<notin> set (butlast v) then Some (key, butlast v)
             else None)"

definition shortcuts :: "string \<Rightarrow> string" where
  "shortcuts key =
     (if key = ''type'' then ''bundle_type''
      else if key = ''size'' then ''data_size''
      else if key = ''worksheet'' then ''host_worksheet''
      else key)"

text \<open>
  The local variables of \<open>search_bundle_uuids\<close> that the loop over the keywords writes.
  A sort key is the field with the flag of \<^verbatim>\<open>desc\<close>; the product of the field with 1 is the
  number the engine reads in it.
\<close>

record search_state =
  s_clauses :: "expr list"
  s_offset :: int
  s_limit :: "int option"
  s_count :: bool
  s_sort_key :: "(column \<times> bool) option"
  s_sum_key :: "column option"

definition initial_state :: search_state where
  "initial_state = \<lparr>s_clauses = [], s_offset = 0, s_limit = Some 10, s_count = False,
                     s_sort_key = None, s_sum_key = None\<rparr>"

definition make_condition :: "column \<Rightarrow> string \<Rightarrow> search_state \<Rightarrow> expr \<times> search_state" where
  "make_condition field v st =
     (if v = ''.sort'' then (TrueC, st\<lparr>s_sort_key := Some (field, False)\<rparr>)
      else if v = ''.sort-'' then (TrueC, st\<lparr>s_sort_key := Some (field, True)\<rparr>)
      else if v = ''.sum'' then (TrueC, st\<lparr>s_sum_key := Some field\<rparr>)
      else if CHR ''%'' \<in> set v then (Like field v, st)
      else (EqLit field (VStr v), st))"

definition append_clause :: "expr \<Rightarrow> search_state \<Rightarrow> search_state" where
  "append_clause clause st = st\<lparr>s_clauses := s_clauses st @ [clause]\<rparr>"

text \<open>A bundle field: the clause is the condition itself.\<close>

definition field_clause :: "column \<Rightarrow> string \<Rightarrow> search_state \<Rightarrow> search_state" where
  "field_clause field v st =
     (case make_condition field v st of (clause, st') \<Rightarrow> append_clause clause st')"

text \<open>
  The special fields and the metadata: joined at the top level by the clause \<open>join\<close> when
  the condition is the constant true (\<^verbatim>\<open>condition == true()\<close> holds of that sentinel only),
  a membership of the uuid in an inner select of the column \<open>link\<close> otherwise. \<open>extra\<close>
  are the clauses that come with the condition in both forms.
\<close>

definition related_clause ::
  "column \<Rightarrow> expr \<Rightarrow> column \<Rightarrow> table \<Rightarrow> expr list \<Rightarrow> string \<Rightarrow> search_state \<Rightarrow> search_state" where
  "related_clause field join link t extra v st =
     (case make_condition field v st of
        (condition, st') \<Rightarrow>
          append_clause
            (if condition = TrueC then and_of ([join] @ extra @ [condition])
             else InSelect B_uuid link [t] (and_of (extra @ [condition])))
            st')"

text \<open>One round of the loop over the keywords.\<close>

definition keyword_step :: "ctx \<Rightarrow> string \<Rightarrow> search_state \<Rightarrow> error + search_state" where
  "keyword_step cx keyword0 st =
     (let keyword = replace_dot_star keyword0
      in case condition_match keyword of
           Some (key0, v) \<Rightarrow>
             (let key = shortcuts key0
              in if key = ''bundle_type'' then Inr (field_clause B_bundle_type v st)
                 else if key = ''id'' then Inr (field_clause B_id v st)
                 else if key = ''uuid'' then Inr (field_clause B_uuid v st)
                 else if key = ''data_hash'' then Inr (field_clause B_data_hash v st)
                 else if key = ''state'' then Inr (field_clause B_state v st)
                 else if key = ''command'' then Inr (field_clause B_command v st)
                 else if key = ''owner_id'' then Inr (field_clause B_owner_id v st)
                 else if key = ''dependency'' then
                   Inr (related_clause D_parent_uuid (EqCol D_child_uuid B_uuid) D_child_uuid Dependency
                          [] v st)
                 else if take 11 key = ''dependency/'' then
                   Inr (related_clause D_parent_uuid (EqCol D_child_uuid B_uuid) D_child_uuid Dependency
                          [EqLit D_child_path (VStr (drop 11 key))] v st)
                 else if key = ''host_worksheet'' then
                   Inr (related_clause W_worksheet_uuid (EqCol W_bundle_uuid B_uuid) W_bundle_uuid
                          WorksheetItem [] v st)
                 else if key = ''.offset'' then
                   (case py_int cx v of None \<Rightarrow> Inl ValueError | Some n \<Rightarrow> Inr (st\<lparr>s_offset := n\<rparr>))
                 else if key = ''.limit'' then
                   (case py_int cx v of None \<Rightarrow> Inl ValueError | Some n \<Rightarrow> Inr (st\<lparr>s_limit := Some n\<rparr>))
                 else
                   Inr (related_clause M_metadata_value (EqCol B_uuid M_bundle_uuid) M_bundle_uuid
                          Metadata [EqLit M_metadata_key (VStr key)] v st))
         | None \<Rightarrow>
             if keyword = ''.count'' then Inr (st\<lparr>s_count := True, s_limit := None\<rparr>)
             else if keyword = ''.orphan'' then
               Inr (append_clause
                      (NotC (InSelect B_uuid B_uuid [WorksheetItem] (EqCol B_uuid W_bundle_uuid))) st)
             else
               Inr (append_clause
                      (or_of [Like B_uuid (''%'' @ keyword @ ''%''),
                              Like B_command (''%'' @ keyword @ ''%''),
                              InSelect B_uuid M_bundle_uuid [Metadata]
                                (Like M_metadata_value (''%'' @ keyword @ ''%''))])
                      st))"

text \<open>The access clause that restricts a principal other than root.\<close>

definition access_via_owner :: "string option \<Rightarrow> expr" where
  "access_via_owner user_id = col_eq B_owner_id (opt_str user_id)"

definition access_via_group :: "ctx \<Rightarrow> string option \<Rightarrow> expr" where
  "access_via_group cx user_id =
     and_of [EqCol P_object_uuid B_uuid,
             or_of [EqLit P_group_uuid (VStr (public_group_uuid cx)),
                    InSelect P_group_uuid U_group_uuid [UserGroup] (col_eq U_user_id (opt_str user_id))],
             GeLit P_permission (VInt GROUP_OBJECT_PERMISSION_READ)]"

text \<open>
  The query and its execution. The select ranges over the table of the selected column
  and the tables of the clause. With a sum key it returns one row, the sum of the numbers
  of the field over the rows of the clause; otherwise the uuids of the bundles of those
  rows, each once, in the order of the sort key. Offset and limit cut the rows; the engine
  rejects negative ones. \<^verbatim>\<open>query.count()\<close> counts the rows of the query.
\<close>

definition sum_values :: "int option list \<Rightarrow> int option" where
  "sum_values xs =
     (case List.map_filter id xs of [] \<Rightarrow> None | n # ns \<Rightarrow> Some (sum_list (n # ns)))"

definition ordered :: "ctx \<Rightarrow> (column \<times> bool) option \<Rightarrow> env list \<Rightarrow> env list" where
  "ordered cx key es =
     (case key of
        None \<Rightarrow> es
      | Some (c, descending) \<Rightarrow>
          (let sorted = sort_key (\<lambda>e. number_of cx (col_value e c)) es
           in if descending then rev sorted else sorted))"

definition window :: "int \<Rightarrow> int option \<Rightarrow> 'a list \<Rightarrow> error + 'a list" where
  "window offset limit rows =
     (if offset < 0 \<or> (case limit of None \<Rightarrow> False | Some l \<Rightarrow> l < 0) then Inl EngineError
      else Inr ((case limit of None \<Rightarrow> id | Some l \<Rightarrow> take (nat l)) (drop (nat offset) rows)))"

datatype search_result = Uuids "string list" | Scalar sql_value

definition search_clause :: "ctx \<Rightarrow> string option \<Rightarrow> search_state \<Rightarrow> expr" where
  "search_clause cx user_id st =
     (let clause = and_of (s_clauses st)
      in if user_id \<noteq> root_user_id cx
         then and_of [clause, or_of [access_via_owner user_id, access_via_group cx user_id]]
         else clause)"

definition matching_rows :: "ctx \<Rightarrow> db \<Rightarrow> string option \<Rightarrow> search_state \<Rightarrow> env list" where
  "matching_rows cx d user_id st =
     (let clause = search_clause cx user_id st;
          selected = (case s_sum_key st of None \<Rightarrow> Bundle | Some c \<Rightarrow> table_of c)
      in filter (\<lambda>e. eval_expr cx d e clause = Some True)
                (envs d (remdups (selected # tables clause)) no_rows))"

definition execute_search :: "ctx \<Rightarrow> db \<Rightarrow> string option \<Rightarrow> search_state \<Rightarrow> error + search_result" where
  "execute_search cx d user_id st =
     (let rows = matching_rows cx d user_id st;
          selected =
            (case s_sum_key st of
               Some c \<Rightarrow> [opt_int (sum_values (map (\<lambda>e. number_of cx (col_value e c)) rows))]
             | None \<Rightarrow> remdups (map (\<lambda>e. col_value e B_uuid) (ordered cx (s_sort_key st) rows)))
      in case window (s_offset st) (s_limit st) selected of
           Inl err \<Rightarrow> Inl err
         | Inr result \<Rightarrow>
             if s_count st then Inr (Scalar (VInt (int (length (filter (\<lambda>v. v \<noteq> VNull) result)))))
             else if s_sum_key st \<noteq> None then
               (case result of [] \<Rightarrow> Inl IndexError | v # vs \<Rightarrow> Inr (Scalar v))
             else Inr (Uuids (List.map_filter (\<lambda>v. case v of VStr u \<Rightarrow> Some u | _ \<Rightarrow> None) result)))"

text \<open>\<open>search_bundle_uuids\<close>; \<open>worksheet_uuid\<close> is not used, as the source says.\<close>

definition search_bundle_uuids ::
  "ctx \<Rightarrow> db \<Rightarrow> string option \<Rightarrow> string \<Rightarrow> string list \<Rightarrow> error + search_result" where
  "search_bundle_uuids cx d user_id worksheet_uuid keywords =
     (case fold_err (keyword_step cx) keywords initial_state of
        Inl err \<Rightarrow> Inl err
      | Inr st \<Rightarrow> execute_search cx d user_id st)"

text \<open>
  Access in the words of the spec: the principal owns the bundle, or a permission row of
  the bundle grants at least READ to a group of the group set of the principal.
\<close>

definition has_access :: "ctx \<Rightarrow> db \<Rightarrow> string option \<Rightarrow> bundle_row \<Rightarrow> bool" where
  "has_access cx d user_id b \<longleftrightarrow>
     b_owner_id b = user_id \<or>
     (\<exists>p \<in> set (cl_group_bundle_permission d).
        p_object_uuid p = b_uuid b \<and> p_permission p \<ge> GROUP_OBJECT_PERMISSION_READ \<and>
        p_group_uuid p \<in> group_set cx d user_id)"

lemma bind_rows_bundle:
  "e \<in> set (bind_rows d t e0) \<Longrightarrow> e_bundle e = Some b \<Longrightarrow> b \<in> set (cl_bundle d) \<or> e_bundle e0 = Some b"
  by (cases t) auto

lemma bind_rows_permission:
  "e \<in> set (bind_rows d t e0) \<Longrightarrow> e_permission e = Some p \<Longrightarrow>
     p \<in> set (cl_group_bundle_permission d) \<or> e_permission e0 = Some p"
  by (cases t) auto

lemma envs_bundle:
  "e \<in> set (envs d ts e0) \<Longrightarrow> e_bundle e = Some b \<Longrightarrow> b \<in> set (cl_bundle d) \<or> e_bundle e0 = Some b"
proof (induction ts arbitrary: e0)
  case Nil
  then show ?case by simp
next
  case (Cons t ts)
  from Cons.prems(1) obtain e1 where e1: "e1 \<in> set (bind_rows d t e0)" "e \<in> set (envs d ts e1)" by auto
  from Cons.IH[OF e1(2) Cons.prems(2)] bind_rows_bundle[OF e1(1)] show ?case by blast
qed

lemma envs_permission:
  "e \<in> set (envs d ts e0) \<Longrightarrow> e_permission e = Some p \<Longrightarrow>
     p \<in> set (cl_group_bundle_permission d) \<or> e_permission e0 = Some p"
proof (induction ts arbitrary: e0)
  case Nil
  then show ?case by simp
next
  case (Cons t ts)
  from Cons.prems(1) obtain e1 where e1: "e1 \<in> set (bind_rows d t e0)" "e \<in> set (envs d ts e1)" by auto
  from Cons.IH[OF e1(2) Cons.prems(2)] bind_rows_permission[OF e1(1)] show ?case by blast
qed

lemma sql_in_True: "sql_in cx v vs = Some True \<longleftrightarrow> (\<exists>w \<in> set vs. sql_eq cx v w = Some True)"
  by (simp add: sql_in_def list_ex_iff)

lemma sql_eq_str: "sql_eq cx v (VStr s) = Some True \<Longrightarrow> v \<noteq> VNull"
  by (cases v) auto

lemma of_row_not_null: "of_row r f \<noteq> VNull \<Longrightarrow> \<exists>x. r = Some x"
  by (cases r) (auto simp: of_row_def)

lemma member_of_group:
  assumes "eval_expr cx d e (InSelect P_group_uuid U_group_uuid [UserGroup] (col_eq U_user_id (opt_str user_id))) = Some True"
    and "e_permission e = Some p"
  shows "p_group_uuid p \<in> ug_group_uuid ` {r \<in> set (cl_user_group d). Some (ug_user_id r) = user_id}"
proof -
  from assms obtain r where r: "r \<in> set (cl_user_group d)"
      "eval_expr cx d (e\<lparr>e_user_group := Some r\<rparr>) (col_eq U_user_id (opt_str user_id)) = Some True"
      "sql_eq cx (VStr (p_group_uuid p)) (VStr (ug_group_uuid r)) = Some True"
    by (auto simp: sql_in_True of_row_def)
  from r(2) have "Some (ug_user_id r) = user_id"
    by (cases user_id) (auto simp: col_eq_def opt_str_def of_row_def)
  with r(1,3) show ?thesis by auto
qed

lemma access_clause_true:
  assumes t: "eval_expr cx d e (or_of [access_via_owner user_id, access_via_group cx user_id]) = Some True"
    and b: "e_bundle e = Some b"
    and p: "\<And>p. e_permission e = Some p \<Longrightarrow> p \<in> set (cl_group_bundle_permission d)"
  shows "has_access cx d user_id b"
proof -
  from t have "eval_expr cx d e (access_via_owner user_id) = Some True
      \<or> eval_expr cx d e (access_via_group cx user_id) = Some True"
    by (simp add: or3_True_iff)
  then show ?thesis
  proof
    assume "eval_expr cx d e (access_via_owner user_id) = Some True"
    with b have "b_owner_id b = user_id"
      by (cases user_id; cases "b_owner_id b") (auto simp: access_via_owner_def col_eq_def opt_str_def of_row_def)
    then show ?thesis by (simp add: has_access_def)
  next
    assume g: "eval_expr cx d e (access_via_group cx user_id) = Some True"
    then have j: "sql_eq cx (col_value e P_object_uuid) (col_value e B_uuid) = Some True"
      and m: "eval_expr cx d e (EqLit P_group_uuid (VStr (public_group_uuid cx))) = Some True
          \<or> eval_expr cx d e (InSelect P_group_uuid U_group_uuid [UserGroup] (col_eq U_user_id (opt_str user_id))) = Some True"
      and l: "sql_ge cx (col_value e P_permission) (VInt GROUP_OBJECT_PERMISSION_READ) = Some True"
      by (simp_all add: access_via_group_def and3_True_iff or3_True_iff)
    from j b have "col_value e P_object_uuid \<noteq> VNull"
      by (auto simp: of_row_def dest: sql_eq_str)
    then obtain q where q: "e_permission e = Some q"
      using of_row_not_null by fastforce
    from j b q have o: "p_object_uuid q = b_uuid b" by (simp add: of_row_def)
    from l q have lv: "p_permission q \<ge> GROUP_OBJECT_PERMISSION_READ" by (simp add: of_row_def sql_ge_def)
    from m have "p_group_uuid q \<in> group_set cx d user_id"
    proof
      assume "eval_expr cx d e (EqLit P_group_uuid (VStr (public_group_uuid cx))) = Some True"
      with q show ?thesis by (simp add: of_row_def group_set_def)
    next
      assume "eval_expr cx d e (InSelect P_group_uuid U_group_uuid [UserGroup] (col_eq U_user_id (opt_str user_id))) = Some True"
      from member_of_group[OF this q] show ?thesis by (simp add: group_set_def)
    qed
    with o lv p[OF q] show ?thesis by (auto simp: has_access_def)
  qed
qed

lemma set_ordered: "set (ordered cx key es) = set es"
  by (auto simp: ordered_def Let_def split: option.splits)

lemma set_window: "window offset limit rows = Inr result \<Longrightarrow> set result \<subseteq> set rows"
  by (auto simp: window_def split: if_splits option.splits dest: in_set_takeD in_set_dropD)

lemma uuids_from_rows:
  assumes "execute_search cx d user_id st = Inr (Uuids us)" and "u \<in> set us"
  shows "\<exists>e \<in> set (matching_rows cx d user_id st). col_value e B_uuid = VStr u"
proof -
  let ?rows = "matching_rows cx d user_id st"
  let ?selected = "remdups (map (\<lambda>e. col_value e B_uuid) (ordered cx (s_sort_key st) ?rows))"
  from assms(1) obtain result where
    w: "window (s_offset st) (s_limit st) ?selected = Inr result"
    and us: "us = List.map_filter (\<lambda>v. case v of VStr u \<Rightarrow> Some u | _ \<Rightarrow> None) result"
    by (auto simp: execute_search_def Let_def split: option.splits sum.splits if_splits list.splits)
  from assms(2) us have "VStr u \<in> set result"
    by (auto simp: List.map_filter_def split: sql_value.splits)
  with set_window[OF w] have "VStr u \<in> set ?selected" by blast
  then show ?thesis by (auto simp: set_ordered)
qed

lemma matching_rows_access:
  assumes "user_id \<noteq> root_user_id cx" and "e \<in> set (matching_rows cx d user_id st)"
  shows "eval_expr cx d e (or_of [access_via_owner user_id, access_via_group cx user_id]) = Some True"
    and "\<And>b. e_bundle e = Some b \<Longrightarrow> b \<in> set (cl_bundle d)"
    and "\<And>p. e_permission e = Some p \<Longrightarrow> p \<in> set (cl_group_bundle_permission d)"
proof -
  let ?clause = "search_clause cx user_id st"
  let ?sel = "case s_sum_key st of None \<Rightarrow> Bundle | Some c \<Rightarrow> table_of c"
  from assms(2) have e: "e \<in> set (envs d (remdups (?sel # tables ?clause)) no_rows)"
    and t: "eval_expr cx d e ?clause = Some True"
    by (simp_all add: matching_rows_def Let_def)
  from assms(1) have "?clause = and_of [and_of (s_clauses st), or_of [access_via_owner user_id, access_via_group cx user_id]]"
    by (simp add: search_clause_def Let_def)
  with t show "eval_expr cx d e (or_of [access_via_owner user_id, access_via_group cx user_id]) = Some True"
    by (simp add: and3_True_iff)
  show "b \<in> set (cl_bundle d)" if "e_bundle e = Some b" for b
    using envs_bundle[OF e that] by (simp add: no_rows_def)
  show "p \<in> set (cl_group_bundle_permission d)" if "e_permission e = Some p" for p
    using envs_permission[OF e that] by (simp add: no_rows_def)
qed

text \<open>
  Claim C1. For a principal other than root and any keywords, every uuid that
  \<open>search_bundle_uuids\<close> returns is the uuid of a bundle the principal has access to, by
  ownership or by a permission row of level at least READ of a group the principal belongs
  to, the public group included. Where uuids identify bundles, no bundle the principal has
  no such access to is returned, whatever else it matches.
\<close>


theorem search_respects_access:
  assumes "user_id \<noteq> root_user_id cx"
    and "search_bundle_uuids cx d user_id worksheet_uuid keywords = Inr (Uuids us)"
    and "u \<in> set us"
  shows "(\<exists>b \<in> set (cl_bundle d). b_uuid b = u \<and> has_access cx d user_id b)
    \<and> (distinct (map b_uuid (cl_bundle d)) \<longrightarrow>
         (\<forall>b \<in> set (cl_bundle d). b_uuid b = u \<longrightarrow> has_access cx d user_id b))"
proof -
  from assms(2) obtain st where st: "execute_search cx d user_id st = Inr (Uuids us)"
    by (auto simp: search_bundle_uuids_def split: sum.splits)
  from uuids_from_rows[OF st assms(3)] obtain e where
    e: "e \<in> set (matching_rows cx d user_id st)" "col_value e B_uuid = VStr u" by blast
  from e(2) obtain b where b: "e_bundle e = Some b" "b_uuid b = u"
    by (cases "e_bundle e") (auto simp: of_row_def)
  note m = matching_rows_access[OF assms(1) e(1)]
  have a: "has_access cx d user_id b" by (rule access_clause_true[OF m(1) b(1) m(3)])
  have bin: "b \<in> set (cl_bundle d)" by (rule m(2)[OF b(1)])
  have "b' = b" if "distinct (map b_uuid (cl_bundle d))" "b' \<in> set (cl_bundle d)" "b_uuid b' = u" for b'
  proof -
    from that(1) have "inj_on b_uuid (set (cl_bundle d))" by (simp add: distinct_map)
    from inj_onD[OF this, of b' b] that(2,3) bin b(2) show ?thesis by simp
  qed
  with a bin b(2) show ?thesis by blast
qed


definition db_search :: db where
  "db_search = db_perm\<lparr>
     cl_bundle := [bundle0 1 ''x'' ''ready'' (Some ''bob''), bundle0 2 ''y'' ''ready'' (Some ''bob''),
                   bundle0 3 ''z'' ''ready'' (Some ''alice''), bundle0 4 ''w'' ''failed'' None]\<rparr>"

lemma search_carol:
  "search_bundle_uuids cx0 db_search (Some ''carol'') [] [''state=ready''] = Inr (Uuids [''x''])"
  by code_simp

lemma carol_group_set: "group_set cx0 db_search (Some ''carol'') = {''public''}"
  unfolding group_set_def set_filter_Collect by (simp add: cx0_def db_search_def db_perm_def db0_def)

theorem search_respects_access_witness:
  "Some ''carol'' \<noteq> root_user_id cx0
   \<and> search_bundle_uuids cx0 db_search (Some ''carol'') [] [''state=ready''] = Inr (Uuids [''x''])
   \<and> distinct (map b_uuid (cl_bundle db_search))
   \<and> has_access cx0 db_search (Some ''carol'') (bundle0 1 ''x'' ''ready'' (Some ''bob''))
   \<and> \<not> has_access cx0 db_search (Some ''carol'') (bundle0 2 ''y'' ''ready'' (Some ''bob''))"
proof -
  have r: "Some ''carol'' \<noteq> root_user_id cx0" by (simp add: cx0_def)
  have dist: "distinct (map b_uuid (cl_bundle db_search))"
    by (simp add: db_search_def db_perm_def db0_def bundle0_def)
  have x: "bundle0 1 ''x'' ''ready'' (Some ''bob'') \<in> set (cl_bundle db_search)"
      "b_uuid (bundle0 1 ''x'' ''ready'' (Some ''bob'')) = ''x''"
    by (simp_all add: db_search_def db_perm_def db0_def bundle0_def)
  from search_respects_access[OF r search_carol, of "''x''"] dist x
  have a: "has_access cx0 db_search (Some ''carol'') (bundle0 1 ''x'' ''ready'' (Some ''bob''))"
    by simp
  have n: "\<not> has_access cx0 db_search (Some ''carol'') (bundle0 2 ''y'' ''ready'' (Some ''bob''))"
    unfolding has_access_def carol_group_set
    by (simp add: db_search_def db_perm_def db0_def bundle0_def)
  from r search_carol dist a n show ?thesis by blast
qed

end
